theory Spec2Isabelle
  imports Complex_Main "HOL-Library.Sublist" "HOL-Library.Char_ord" "HOL-Library.List_Lexorder"
begin

section \<open>Strings\<close>

text \<open>
  The pipeline works on Python \<open>str\<close> values. A \<open>string\<close> here is a list of
  \<open>char\<close>, and each \<open>char\<close> stands for one code point below 256 (Latin-1), so the
  development speaks about text whose code points are all below 256. The character
  classes below are Python's classes restricted to that range.
\<close>

definition in_range :: "char \<Rightarrow> char \<Rightarrow> char \<Rightarrow> bool" where
  \<comment> \<open>characters are ordered by their code points\<close>
  "in_range lo hi c = (lo \<le> c \<and> c \<le> hi)"

definition is_digit :: "char \<Rightarrow> bool" where
  \<comment> \<open>\<open>\d\<close>: the decimal digits\<close>
  "is_digit c = in_range CHR ''0'' CHR ''9'' c"

definition is_upper_az :: "char \<Rightarrow> bool" where
  "is_upper_az c = in_range CHR ''A'' CHR ''Z'' c"

definition is_lower_az :: "char \<Rightarrow> bool" where
  "is_lower_az c = in_range CHR ''a'' CHR ''z'' c"

definition is_ascii_letter :: "char \<Rightarrow> bool" where
  \<comment> \<open>\<open>[A-Za-z]\<close>, also \<open>[A-Z]\<close> under IGNORECASE\<close>
  "is_ascii_letter c = (is_upper_az c \<or> is_lower_az c)"

definition is_ascii_alnum :: "char \<Rightarrow> bool" where
  \<comment> \<open>\<open>[A-Za-z0-9]\<close>\<close>
  "is_ascii_alnum c = (is_ascii_letter c \<or> is_digit c)"

definition is_upper_or_digit :: "char \<Rightarrow> bool" where
  \<comment> \<open>\<open>[0-9A-Z]\<close>\<close>
  "is_upper_or_digit c = (is_digit c \<or> is_upper_az c)"

definition is_space :: "char \<Rightarrow> bool" where
  \<comment> \<open>\<open>\s\<close> and \<open>str.isspace\<close>: TAB..CR, FS..US, space, NEL, NBSP\<close>
  "is_space c = (in_range (CHR 0x09) (CHR 0x0D) c \<or> in_range (CHR 0x1C) (CHR 0x20) c
                 \<or> c = CHR 0x85 \<or> c = CHR 0xA0)"

definition is_upper_latin1 :: "char \<Rightarrow> bool" where
  \<comment> \<open>the capital letters U+00C0..U+00DE, without the multiplication sign U+00D7\<close>
  "is_upper_latin1 c = (in_range (CHR 0xC0) (CHR 0xD6) c \<or> in_range (CHR 0xD8) (CHR 0xDE) c)"

definition is_lower_latin1 :: "char \<Rightarrow> bool" where
  \<comment> \<open>their small letters U+00E0..U+00FE, without the division sign U+00F7\<close>
  "is_lower_latin1 c = (in_range (CHR 0xE0) (CHR 0xF6) c \<or> in_range (CHR 0xF8) (CHR 0xFE) c)"

definition is_latin1_letter :: "char \<Rightarrow> bool" where
  \<comment> \<open>the letters of Latin-1 above ASCII (\<open>str.isalpha\<close>): the capitals, the small
      letters, sharp s, y with diaeresis, the two ordinal indicators and the micro sign\<close>
  "is_latin1_letter c = (is_upper_latin1 c \<or> is_lower_latin1 c \<or> c = CHR 0xDF \<or> c = CHR 0xFF
                         \<or> c = CHR 0xAA \<or> c = CHR 0xBA \<or> c = CHR 0xB5)"

definition is_latin1_numeric :: "char \<Rightarrow> bool" where
  \<comment> \<open>superscript digits and vulgar fractions: numeric, not decimal\<close>
  "is_latin1_numeric c = (c = CHR 0xB2 \<or> c = CHR 0xB3 \<or> c = CHR 0xB9
                          \<or> in_range (CHR 0xBC) (CHR 0xBE) c)"

definition is_word :: "char \<Rightarrow> bool" where
  \<comment> \<open>\<open>\w\<close>: alphanumeric or underscore\<close>
  "is_word c = (is_ascii_alnum c \<or> c = CHR ''_'' \<or> is_latin1_letter c \<or> is_latin1_numeric c)"

definition str_isdigit_char :: "char \<Rightarrow> bool" where
  \<comment> \<open>\<open>str.isdigit\<close> on one character: decimal digits and superscript digits\<close>
  "str_isdigit_char c = (is_digit c \<or> c = CHR 0xB2 \<or> c = CHR 0xB3 \<or> c = CHR 0xB9)"

definition isdigit :: "string \<Rightarrow> bool" where
  "isdigit s = (s \<noteq> [] \<and> list_all str_isdigit_char s)"

fun lower_char :: "char \<Rightarrow> char" where
  \<comment> \<open>a small letter is 32 above its capital: the capitals have bit 5 clear, and setting
      it adds 32\<close>
  "lower_char (Char b0 b1 b2 b3 b4 b5 b6 b7) =
     (if is_upper_az (Char b0 b1 b2 b3 b4 b5 b6 b7) \<or> is_upper_latin1 (Char b0 b1 b2 b3 b4 b5 b6 b7)
      then Char b0 b1 b2 b3 b4 True b6 b7 else Char b0 b1 b2 b3 b4 b5 b6 b7)"

definition lower :: "string \<Rightarrow> string" where
  "lower s = map lower_char s"

fun upper_char :: "char \<Rightarrow> string" where
  \<comment> \<open>\<open>str.upper\<close>: a capital is 32 below its small letter (bit 5 cleared); sharp s
      becomes SS; the capitals of micro sign and of y with diaeresis lie above 255 and
      the two are left as they are here\<close>
  "upper_char (Char b0 b1 b2 b3 b4 b5 b6 b7) =
     (if is_lower_az (Char b0 b1 b2 b3 b4 b5 b6 b7) \<or> is_lower_latin1 (Char b0 b1 b2 b3 b4 b5 b6 b7)
      then [Char b0 b1 b2 b3 b4 False b6 b7]
      else if Char b0 b1 b2 b3 b4 b5 b6 b7 = CHR 0xDF then ''SS''
      else [Char b0 b1 b2 b3 b4 b5 b6 b7])"

definition upper :: "string \<Rightarrow> string" where
  "upper s = concat (map upper_char s)"

definition lstrip :: "string \<Rightarrow> string" where
  "lstrip s = dropWhile is_space s"

definition rstrip :: "string \<Rightarrow> string" where
  "rstrip s = rev (dropWhile is_space (rev s))"

definition strip :: "string \<Rightarrow> string" where
  "strip s = rstrip (lstrip s)"

fun split_on :: "char \<Rightarrow> string \<Rightarrow> string list" where
  \<comment> \<open>\<open>s.split(sep)\<close> for a one-character separator: always at least one piece\<close>
  "split_on sep [] = [[]]"
| "split_on sep (c # cs) =
     (if c = sep then [] # split_on sep cs
      else (case split_on sep cs of [] \<Rightarrow> [[c]] | p # ps \<Rightarrow> (c # p) # ps))"

definition split_nl :: "string \<Rightarrow> string list" where
  "split_nl s = split_on (CHR 0x0A) s"

fun join_nl :: "string list \<Rightarrow> string" where
  \<comment> \<open>\<open>"\n".join(xs)\<close>\<close>
  "join_nl [] = []"
| "join_nl [x] = x"
| "join_nl (x # y # ys) = x @ [CHR 0x0A] @ join_nl (y # ys)"

fun split_ws_acc :: "string \<Rightarrow> string \<Rightarrow> string list" where
  \<comment> \<open>\<open>s.split()\<close>: the maximal runs of non-whitespace; the first argument is the run
      being read\<close>
  "split_ws_acc w [] = (if w = [] then [] else [w])"
| "split_ws_acc w (c # cs) =
     (if is_space c then (if w = [] then split_ws_acc [] cs else w # split_ws_acc [] cs)
      else split_ws_acc (w @ [c]) cs)"

definition split_ws :: "string \<Rightarrow> string list" where
  "split_ws s = split_ws_acc [] s"

definition replace_char :: "char \<Rightarrow> char \<Rightarrow> string \<Rightarrow> string" where
  \<comment> \<open>\<open>s.replace(a, b)\<close> for one-character \<open>a\<close> and \<open>b\<close>\<close>
  "replace_char a b s = map (\<lambda>c. if c = a then b else c) s"

definition remove_char :: "char \<Rightarrow> string \<Rightarrow> string" where
  \<comment> \<open>\<open>s.replace(a, "")\<close>\<close>
  "remove_char a s = filter (\<lambda>c. c \<noteq> a) s"

fun contains :: "string \<Rightarrow> string \<Rightarrow> bool" where
  \<comment> \<open>\<open>k in s\<close>\<close>
  "contains k [] = (k = [])"
| "contains k (c # cs) = (prefix k (c # cs) \<or> contains k cs)"

section \<open>Regular expressions\<close>

text \<open>
  Python's \<open>re\<close> is a backtracking matcher. A pattern is modelled by the function that
  maps a position of the subject to the list of all positions where a match starting
  there can end, in the order in which backtracking tries them; the head of that list
  is the match that \<open>re\<close> reports. A position is the character before it (\<open>None\<close> at
  the start of the subject), the rest of the subject, and the texts of the groups
  closed so far.
\<close>

type_synonym mstate = "char option \<times> string \<times> string list"
type_synonym matcher = "mstate \<Rightarrow> mstate list"

definition chr :: "(char \<Rightarrow> bool) \<Rightarrow> matcher" where
  \<comment> \<open>one character of a class\<close>
  "chr P = (\<lambda>(b, s, g). case s of [] \<Rightarrow> [] | c # cs \<Rightarrow> if P c then [(Some c, cs, g)] else [])"

definition word_before :: "char option \<Rightarrow> bool" where
  "word_before b = (case b of None \<Rightarrow> False | Some c \<Rightarrow> is_word c)"

definition word_after :: "string \<Rightarrow> bool" where
  "word_after s = (case s of [] \<Rightarrow> False | c # _ \<Rightarrow> is_word c)"

definition wordb :: matcher where
  \<comment> \<open>\<open>\b\<close>\<close>
  "wordb = (\<lambda>(b, s, g). if word_before b \<noteq> word_after s then [(b, s, g)] else [])"

definition bos :: matcher where
  \<comment> \<open>\<open>^\<close> without MULTILINE\<close>
  "bos = (\<lambda>(b, s, g). if b = None then [(b, s, g)] else [])"

definition eos :: matcher where
  \<comment> \<open>\<open>$\<close> without MULTILINE: at the end, or before a final newline\<close>
  "eos = (\<lambda>(b, s, g). if s = [] \<or> s = [CHR 0x0A] then [(b, s, g)] else [])"

definition seq :: "matcher \<Rightarrow> matcher \<Rightarrow> matcher" where
  "seq m1 m2 = (\<lambda>st. concat (map m2 (m1 st)))"

definition alt :: "matcher \<Rightarrow> matcher \<Rightarrow> matcher" where
  "alt m1 m2 = (\<lambda>st. m1 st @ m2 st)"

fun seqs :: "matcher list \<Rightarrow> matcher" where
  "seqs [] = (\<lambda>st. [st])"
| "seqs (m # ms) = seq m (seqs ms)"

fun alts :: "matcher list \<Rightarrow> matcher" where
  "alts [] = (\<lambda>st. [])"
| "alts (m # ms) = alt m (alts ms)"

definition lit :: "string \<Rightarrow> matcher" where
  "lit s = seqs (map (\<lambda>c. chr (\<lambda>d. d = c)) s)"

definition lit_ci :: "string \<Rightarrow> matcher" where
  \<comment> \<open>a literal under IGNORECASE\<close>
  "lit_ci s = seqs (map (\<lambda>c. chr (\<lambda>d. lower_char d = lower_char c)) s)"

primrec exactly :: "nat \<Rightarrow> matcher \<Rightarrow> matcher" where
  \<comment> \<open>\<open>x{n}\<close>\<close>
  "exactly 0 m = (\<lambda>st. [st])"
| "exactly (Suc n) m = seq m (exactly n m)"

primrec upto_greedy :: "nat \<Rightarrow> matcher \<Rightarrow> matcher" where
  \<comment> \<open>\<open>x{0,n}\<close>: one more repetition is tried before stopping\<close>
  "upto_greedy 0 m = (\<lambda>st. [st])"
| "upto_greedy (Suc n) m = (\<lambda>st. concat (map (upto_greedy n m) (m st)) @ [st])"

primrec upto_lazy :: "nat \<Rightarrow> matcher \<Rightarrow> matcher" where
  \<comment> \<open>\<open>x{0,n}?\<close>: stopping is tried before one more repetition\<close>
  "upto_lazy 0 m = (\<lambda>st. [st])"
| "upto_lazy (Suc n) m = (\<lambda>st. st # concat (map (upto_lazy n m) (m st)))"

definition rep :: "nat \<Rightarrow> nat \<Rightarrow> matcher \<Rightarrow> matcher" where
  \<comment> \<open>\<open>x{lo,hi}\<close>\<close>
  "rep lo hi m = seq (exactly lo m) (upto_greedy (hi - lo) m)"

definition opt :: "matcher \<Rightarrow> matcher" where
  \<comment> \<open>\<open>x?\<close>\<close>
  "opt m = upto_greedy 1 m"

definition progress :: "matcher \<Rightarrow> matcher" where
  \<comment> \<open>the matches of \<open>m\<close> that consume at least one character\<close>
  "progress m = (\<lambda>(b, s, g). filter (\<lambda>(b', s', g'). length s' < length s) (m (b, s, g)))"

definition star :: "matcher \<Rightarrow> matcher" where
  \<comment> \<open>\<open>x*\<close>. No repeated pattern of this program matches the empty string, so every
      repetition consumes a character and the length of the rest bounds their number.\<close>
  "star m = (\<lambda>(b, s, g). upto_greedy (length s) (progress m) (b, s, g))"

definition plus_greedy :: "matcher \<Rightarrow> matcher" where
  \<comment> \<open>\<open>x+\<close>\<close>
  "plus_greedy m = seq m (star m)"

definition plus_lazy :: "matcher \<Rightarrow> matcher" where
  \<comment> \<open>\<open>x+?\<close>\<close>
  "plus_lazy m = seq m (\<lambda>(b, s, g). upto_lazy (length s) (progress m) (b, s, g))"

definition consumed :: "string \<Rightarrow> string \<Rightarrow> string" where
  \<comment> \<open>the text between a position with rest \<open>s\<close> and a later one with rest \<open>s'\<close>\<close>
  "consumed s s' = take (length s - length s') s"

definition grp :: "matcher \<Rightarrow> matcher" where
  \<comment> \<open>a capturing group: its text is appended to the groups\<close>
  "grp m = (\<lambda>(b, s, g). map (\<lambda>(b', s', g'). (b', s', g' @ [consumed s s'])) (m (b, s, g)))"

definition opt_grp :: "matcher \<Rightarrow> matcher" where
  \<comment> \<open>\<open>(x)?\<close>: a group that did not take part reads as the empty string in \<open>findall\<close>\<close>
  "opt_grp m = alt (grp m) (\<lambda>(b, s, g). [(b, s, g @ [[]])])"

text \<open>A match: the matched text, the groups, and the position after it.\<close>

type_synonym rmatch = "string \<times> string list \<times> char option \<times> string"

definition match_at :: "matcher \<Rightarrow> char option \<Rightarrow> string \<Rightarrow> rmatch option" where
  "match_at m b s = (case m (b, s, []) of [] \<Rightarrow> None
                     | (b', s', g) # _ \<Rightarrow> Some (consumed s s', g, b', s'))"

definition re_match :: "matcher \<Rightarrow> string \<Rightarrow> rmatch option" where
  \<comment> \<open>\<open>pattern.match(s)\<close>: at the start only\<close>
  "re_match m s = match_at m None s"

fun search_from :: "matcher \<Rightarrow> char option \<Rightarrow> string \<Rightarrow> rmatch option" where
  "search_from m b [] = match_at m b []"
| "search_from m b (c # cs) =
     (case match_at m b (c # cs) of Some r \<Rightarrow> Some r | None \<Rightarrow> search_from m (Some c) cs)"

definition search :: "matcher \<Rightarrow> string \<Rightarrow> rmatch option" where
  \<comment> \<open>\<open>pattern.search(s)\<close>: the leftmost match\<close>
  "search m s = search_from m None s"

definition found :: "matcher \<Rightarrow> string \<Rightarrow> bool" where
  \<comment> \<open>the truth value of \<open>pattern.search(s)\<close>\<close>
  "found m s = (search m s \<noteq> None)"

function matches_from :: "matcher \<Rightarrow> char option \<Rightarrow> string \<Rightarrow> rmatch list" where
  \<comment> \<open>the non-overlapping matches from left to right; the scan resumes where a match
      ended, one character further when the match was empty\<close>
  "matches_from m b s =
     (case match_at m b s of
        Some (w, g, b', s') \<Rightarrow>
          (if length s' < length s then (w, g, b', s') # matches_from m b' s'
           else (w, g, b', s') # (case s of [] \<Rightarrow> [] | c # cs \<Rightarrow> matches_from m (Some c) cs))
      | None \<Rightarrow> (case s of [] \<Rightarrow> [] | c # cs \<Rightarrow> matches_from m (Some c) cs))"
  by pat_completeness auto
termination
  by (relation "measure (\<lambda>(m, b, s). length s)") auto

declare matches_from.simps [simp del]

definition findall :: "matcher \<Rightarrow> string \<Rightarrow> string list" where
  \<comment> \<open>\<open>findall\<close> for a pattern with no group, or one group around the whole pattern\<close>
  "findall m s = map fst (matches_from m None s)"

definition findall_groups :: "matcher \<Rightarrow> string \<Rightarrow> string list list" where
  \<comment> \<open>\<open>findall\<close> for a pattern with several groups: the tuple of group texts\<close>
  "findall_groups m s = map (\<lambda>(w, g, b', s'). g) (matches_from m None s)"


section \<open>Segmenter\<close>

record page =
  page_num :: int
  page_text :: string
  is_scanned :: bool

record shipment_block =
  block_text :: string
  block_page_num :: "int option"

definition Segmenter_RE_TRACKING :: matcher where
  \<comment> \<open>\<^verbatim>\<open>\b1Z[0-9A-Z]{8,18}\b\<close>\<close>
  "Segmenter_RE_TRACKING = seqs [wordb, lit ''1Z'', rep 8 18 (chr is_upper_or_digit), wordb]"

definition RE_INVOICE_HEADER :: matcher where
  \<comment> \<open>\<^verbatim>\<open>(Rechnung|Invoice|UPS|Kunden\-Nr|Rechnungsdatum|Lieferant|Dachser)\<close>, IGNORECASE\<close>
  "RE_INVOICE_HEADER = grp (alts [lit_ci ''Rechnung'', lit_ci ''Invoice'', lit_ci ''UPS'',
     lit_ci ''Kunden-Nr'', lit_ci ''Rechnungsdatum'', lit_ci ''Lieferant'', lit_ci ''Dachser''])"

definition RE_FOOTER :: matcher where
  \<comment> \<open>\<^verbatim>\<open>(Seite\s+\d+|Page\s+\d+)\<close>, IGNORECASE\<close>
  "RE_FOOTER = grp (alts [seqs [lit_ci ''Seite'', plus_greedy (chr is_space), plus_greedy (chr is_digit)],
                          seqs [lit_ci ''Page'', plus_greedy (chr is_space), plus_greedy (chr is_digit)]])"

definition stripped_lines :: "string \<Rightarrow> string list" where
  \<comment> \<open>\<^verbatim>\<open>[ln.strip() for ln in text.split("\n") if ln.strip()]\<close>\<close>
  "stripped_lines t = filter (\<lambda>l. l \<noteq> []) (map strip (split_nl t))"

definition has_tracking :: "string \<Rightarrow> bool" where
  "has_tracking l = found Segmenter_RE_TRACKING l"

definition is_header_or_footer :: "string \<Rightarrow> bool" where
  "is_header_or_footer l = (found RE_INVOICE_HEADER l \<or> found RE_FOOTER l)"

record seg_state =
  blocks :: "shipment_block list"
  current_lines :: "string list"
  current_page_start :: "int option"
  inside_shipment :: bool

definition seg_init :: seg_state where
  "seg_init = \<lparr>blocks = [], current_lines = [], current_page_start = None,
               inside_shipment = False\<rparr>"

definition close_block :: "seg_state \<Rightarrow> shipment_block" where
  \<comment> \<open>\<^verbatim>\<open>ShipmentBlock("\n".join(current_lines), current_page_start)\<close>\<close>
  "close_block st = \<lparr>block_text = join_nl (current_lines st),
                     block_page_num = current_page_start st\<rparr>"

definition line_step :: "page \<Rightarrow> seg_state \<Rightarrow> string \<Rightarrow> seg_state" where
  \<comment> \<open>the body of the loop over the lines of a page\<close>
  "line_step p st line =
     (if is_header_or_footer line then st
      else
        let st1 = (if has_tracking line then
                     (let st0 = (if inside_shipment st \<and> current_lines st \<noteq> []
                                 then st\<lparr>blocks := blocks st @ [close_block st],
                                         current_lines := []\<rparr>
                                 else st)
                      in st0\<lparr>inside_shipment := True, current_page_start := Some (page_num p)\<rparr>)
                   else st)
        in if inside_shipment st1 then st1\<lparr>current_lines := current_lines st1 @ [line]\<rparr>
           else st1)"

definition page_break :: "seg_state \<Rightarrow> page list \<Rightarrow> seg_state" where
  \<comment> \<open>the look-ahead at the end of a page; the second argument is the pages that follow\<close>
  "page_break st rest_pages =
     (if inside_shipment st then
        (case rest_pages of
           [] \<Rightarrow> st
         | nxt # _ \<Rightarrow>
             if list_ex has_tracking (stripped_lines (page_text nxt))
             then st\<lparr>blocks := blocks st @ [close_block st], current_lines := [],
                     inside_shipment := False\<rparr>
             else st)
      else st)"

fun page_loop :: "page list \<Rightarrow> seg_state \<Rightarrow> seg_state" where
  "page_loop [] st = st"
| "page_loop (p # ps) st =
     page_loop ps (page_break (foldl (line_step p) st (stripped_lines (page_text p))) ps)"

definition flush :: "seg_state \<Rightarrow> shipment_block list" where
  \<comment> \<open>end of input: a block that is still open and has lines is closed\<close>
  "flush st = (if inside_shipment st \<and> current_lines st \<noteq> []
               then blocks st @ [close_block st] else blocks st)"

definition segment :: "page list \<Rightarrow> shipment_block list" where
  "segment pages = flush (page_loop pages seg_init)"

text \<open>Auxiliary notions for stating the segmentation properties.\<close>

definition not_hf :: "string \<Rightarrow> bool" where
  "not_hf l = (\<not> is_header_or_footer l)"

definition page_block :: "page \<Rightarrow> shipment_block" where
  \<comment> \<open>the lines of a page from its first tracking line on, headers and footers left out\<close>
  "page_block p =
     \<lparr>block_text = join_nl (filter not_hf
        (dropWhile (\<lambda>l. \<not> has_tracking l) (stripped_lines (page_text p)))),
      block_page_num = Some (page_num p)\<rparr>"

definition one_tracking_line :: "page \<Rightarrow> bool" where
  \<comment> \<open>exactly one line of the page has a tracking number, and that line is neither a
      header nor a footer line\<close>
  "one_tracking_line p =
     (case filter has_tracking (stripped_lines (page_text p)) of
        [tk] \<Rightarrow> \<not> is_header_or_footer tk | _ \<Rightarrow> False)"

section \<open>Numbers\<close>

text \<open>
  Python floats are modelled by the exact rational value of the decimal literal they are
  read from. Every number the extractors keep is below ten million, and the cost rows
  carry at most two decimals, so equality and order of the kept values are those of
  the floats.
\<close>

definition digit_val :: "char \<Rightarrow> int" where
  "digit_val c = (case map_of (zip ''0123456789'' [0, 1, 2, 3, 4, 5, 6, 7, 8, 9]) c of
                    Some v \<Rightarrow> v | None \<Rightarrow> 0)"

definition int_of_digits :: "string \<Rightarrow> int" where
  \<comment> \<open>\<open>int(s)\<close> for a string of decimal digits\<close>
  "int_of_digits s = foldl (\<lambda>n c. 10 * n + digit_val c) 0 s"

definition py_float :: "string \<Rightarrow> rat option" where
  \<comment> \<open>\<open>float(s)\<close> on a plain decimal literal (digits with at most one point, at least
      one digit); \<open>None\<close> stands for ValueError. The extractors pass nothing else.\<close>
  "py_float s =
     (case split_on CHR ''.'' s of
        [i] \<Rightarrow> if i \<noteq> [] \<and> list_all is_digit i then Some (of_int (int_of_digits i)) else None
      | [i, f] \<Rightarrow> if (i \<noteq> [] \<or> f \<noteq> []) \<and> list_all is_digit (i @ f)
                  then Some (of_int (int_of_digits (i @ f)) / 10 ^ length f) else None
      | _ \<Rightarrow> None)"

section \<open>CostExtractor\<close>

record cost_item =
  extracted_category :: "string option"
  total_cost_in_shipment_currency :: "rat option"
  currency :: "string option"
  mention :: "string option"

definition is_umlaut :: "char \<Rightarrow> bool" where
  \<comment> \<open>the six umlaut letters of the patterns: capital and small a, o, u with diaeresis\<close>
  "is_umlaut c = (c \<in> set [CHR 0xC4, CHR 0xD6, CHR 0xDC, CHR 0xE4, CHR 0xF6, CHR 0xFC])"

definition desc_char :: "char \<Rightarrow> bool" where
  \<comment> \<open>the class of the description: letters, umlauts, sharp s, digits,
      \<^verbatim>\<open>- . ( ) /\<close>, space and comma\<close>
  "desc_char c = (is_ascii_alnum c \<or> is_umlaut c \<or> c = CHR 0xDF \<or> c \<in> set ''-.()/ ,'')"

definition german_number :: matcher where
  \<comment> \<open>\<^verbatim>\<open>\d{1,3}(?:\.\d{3})*,\d{1,2}\<close>\<close>
  "german_number = seqs [rep 1 3 (chr is_digit), star (seqs [lit ''.'', exactly 3 (chr is_digit)]),
                         lit '','', rep 1 2 (chr is_digit)]"

definition ROW_RE :: matcher where
  \<comment> \<open>\<^verbatim>\<open>^(?P<desc>[...]+?)\s+(?P<numcols>(number\s+)+number)$\<close>. The groups read are
      \<open>desc\<close> and \<open>numcols\<close>; the group inside \<open>numcols\<close> is never read and is left
      without a capture.\<close>
  "ROW_RE = seqs [bos, grp (plus_lazy (chr desc_char)), plus_greedy (chr is_space),
                  grp (seqs [plus_greedy (seqs [german_number, plus_greedy (chr is_space)]), german_number]),
                  eos]"

definition CURRENCY_RE :: matcher where
  \<comment> \<open>\<^verbatim>\<open>Gesamtkosten\s+(?P<cur>[A-Z]{3})\<close>, IGNORECASE\<close>
  "CURRENCY_RE = seqs [lit_ci ''Gesamtkosten'', plus_greedy (chr is_space),
                       grp (exactly 3 (chr is_ascii_letter))]"

definition INLINE_CURRENCY_RE :: matcher where
  \<comment> \<open>\<^verbatim>\<open>\b(CHF|EUR|USD|GBP)\b\<close>, IGNORECASE\<close>
  "INLINE_CURRENCY_RE = seqs [wordb, grp (alts [lit_ci ''CHF'', lit_ci ''EUR'', lit_ci ''USD'',
                                                lit_ci ''GBP'']), wordb]"

definition SKIP_KEYWORDS :: "string list" where
  "SKIP_KEYWORDS =
     [''gesamtkosten'', ''gesamtbetrag'', ''anzahl'', ''anzahl worldwide'', ''anzahl ww express'',
      ''package'', ''packages'', ''ww express saver package'', ''rabatt (gesamt)'',
      ''rabattzusammenfassung'', ''rabatt (gesamt)'',
      ''gesamtbetrag zus'' @ [CHR 0xE4] @ ''tzliche tarife'']"

definition CATEGORY_MAP :: "(string \<times> string) list" where
  \<comment> \<open>in the order of the dictionary\<close>
  "CATEGORY_MAP =
     [(''transport'', ''Freight''), (''dritte partei transport'', ''Freight''),
      (''benzinzuschlag'', ''Fuel''), (''diesel'', ''Fuel''), (''maut'', ''Toll''),
      (''toll'', ''Toll''), (''zoll'', ''Customs''), (''customs'', ''Customs''),
      (''verzollung'', ''Customs''), (''handling'', ''Handling''), (''lager'', ''Storage''),
      (''storage'', ''Storage''), (''versicherung'', ''Insurance''),
      (''insurance'', ''Insurance''), (''rabatt'', ''Discount''), (''discount'', ''Discount''),
      (''surcharge'', ''Surcharge''), (''geb'' @ [CHR 0xFC] @ ''hr'', ''Surcharge''),
      (''surge fee'', ''Surcharge'')]"

definition detect_invoice_currency :: "string \<Rightarrow> string option" where
  "detect_invoice_currency t =
     (case search CURRENCY_RE t of None \<Rightarrow> None | Some (w, g, b, s) \<Rightarrow> Some (g ! 0))"

definition detect_currency_inline :: "string \<Rightarrow> string option" where
  "detect_currency_inline line =
     (case search INLINE_CURRENCY_RE line of None \<Rightarrow> None
      | Some (w, g, b, s) \<Rightarrow> Some (upper (g ! 0)))"

text \<open>
  The similarity score \<open>fuzz.partial_ratio\<close> belongs to an external library; it is a
  parameter of the model, a score between 0 and 100.
\<close>

type_synonym ratio = "string \<Rightarrow> string \<Rightarrow> rat"

definition best_category :: "ratio \<Rightarrow> string \<Rightarrow> string option \<times> rat" where
  \<comment> \<open>the loop over the dictionary: a strictly higher score replaces the best one\<close>
  "best_category pr d =
     foldl (\<lambda>(best_cat, best_score) (key, cat).
              if pr key d > best_score then (Some cat, pr key d) else (best_cat, best_score))
           (None, 0) CATEGORY_MAP"

definition normalize_category :: "ratio \<Rightarrow> string \<Rightarrow> string option" where
  "normalize_category pr desc =
     (let (best_cat, best_score) = best_category pr (strip (lower desc))
      in if best_score \<ge> 70 then best_cat else Some desc)"

definition CostExtractor_to_float :: "string \<Rightarrow> rat option" where
  "CostExtractor_to_float s =
     (if s = [] then None
      else case py_float (replace_char CHR '','' CHR ''.'' (remove_char CHR ''.'' s)) of
             None \<Rightarrow> None
           | Some v \<Rightarrow> if v < 10000000 then Some v else None)"

datatype py_error = IndexError | TypeError

definition row_item :: "ratio \<Rightarrow> string option \<Rightarrow> string \<Rightarrow> py_error + cost_item option" where
  \<comment> \<open>the body of the loop for one raw line, up to the item; \<open>Inr None\<close> when the line
      is passed over\<close>
  "row_item pr currency_invoice raw =
     (let line = strip raw in
      if line = [] then Inr None
      else if list_ex (\<lambda>k. contains k (lower line)) SKIP_KEYWORDS then Inr None
      else case re_match ROW_RE line of
             None \<Rightarrow> Inr None
           | Some (w, g, b, s) \<Rightarrow>
               (let desc = strip (g ! 0); numcols = split_ws (g ! 1) in
                if numcols = [] then Inl IndexError
                else
                  let cost_val = CostExtractor_to_float (last numcols);
                      currency_line = detect_currency_inline line;
                      cur = (case currency_line of Some c \<Rightarrow> if c \<noteq> [] then Some c else currency_invoice
                             | None \<Rightarrow> currency_invoice)
                  in Inr (Some \<lparr>extracted_category = normalize_category pr desc,
                                 total_cost_in_shipment_currency = cost_val,
                                 currency = cur, mention = Some line\<rparr>)))"

type_synonym signature = "string option \<times> rat option \<times> string option"

definition sig :: "cost_item \<Rightarrow> signature" where
  "sig it = (extracted_category it, total_cost_in_shipment_currency it, currency it)"

definition cost_step :: "ratio \<Rightarrow> string option \<Rightarrow> py_error + cost_item list \<times> signature set
                          \<Rightarrow> string \<Rightarrow> py_error + cost_item list \<times> signature set" where
  "cost_step pr currency_invoice acc raw =
     (case acc of
        Inl e \<Rightarrow> Inl e
      | Inr (cost_items, seen) \<Rightarrow>
          (case row_item pr currency_invoice raw of
             Inl e \<Rightarrow> Inl e
           | Inr None \<Rightarrow> Inr (cost_items, seen)
           | Inr (Some item) \<Rightarrow>
               if sig item \<notin> seen then Inr (cost_items @ [item], insert (sig item) seen)
               else Inr (cost_items, seen)))"

definition CostExtractor_extract :: "ratio \<Rightarrow> string \<Rightarrow> py_error + cost_item list" where
  "CostExtractor_extract pr t =
     (case foldl (cost_step pr (detect_invoice_currency t)) (Inr ([], {})) (split_nl t) of
        Inl e \<Rightarrow> Inl e | Inr (cost_items, seen) \<Rightarrow> Inr cost_items)"

section \<open>Notions for reasoning about matchers\<close>

definition before :: "mstate \<Rightarrow> char option" where
  "before st = fst st"

definition rest :: "mstate \<Rightarrow> string" where
  "rest st = fst (snd st)"

definition groups :: "mstate \<Rightarrow> string list" where
  "groups st = snd (snd st)"

definition reads :: "mstate \<Rightarrow> string \<Rightarrow> mstate \<Rightarrow> bool" where
  \<comment> \<open>going from \<open>st\<close> to \<open>st'\<close> reads the text \<open>w\<close>\<close>
  "reads st w st' = (rest st = w @ rest st' \<and>
                     before st' = (if w = [] then before st else Some (last w)))"

definition reads_only :: "(char \<Rightarrow> bool) \<Rightarrow> matcher \<Rightarrow> bool" where
  \<comment> \<open>every match of \<open>m\<close> reads a piece of the subject made of characters of \<open>P\<close>\<close>
  "reads_only P m = (\<forall>st st'. st' \<in> set (m st) \<longrightarrow> (\<exists>w. reads st w st' \<and> list_all P w))"

definition consuming :: "matcher \<Rightarrow> bool" where
  \<comment> \<open>every match of \<open>m\<close> reads at least one character\<close>
  "consuming m = (\<forall>st st'. st' \<in> set (m st) \<longrightarrow> length (rest st') < length (rest st))"

definition keeps_groups :: "matcher \<Rightarrow> bool" where
  "keeps_groups m = (\<forall>st st'. st' \<in> set (m st) \<longrightarrow> groups st' = groups st)"

section \<open>IdentifierExtractor\<close>

definition RE_UPS_STRICT :: matcher where
  \<comment> \<open>\<^verbatim>\<open>\b1Z[0-9A-Z]{8,20}\b\<close>\<close>
  "RE_UPS_STRICT = seqs [wordb, lit ''1Z'', rep 8 20 (chr is_upper_or_digit), wordb]"

definition RE_UPS_LOOSE :: matcher where
  \<comment> \<open>\<^verbatim>\<open>\b[1Iil][Zz][0-9A-Z]{8,20}\b\<close>\<close>
  "RE_UPS_LOOSE = seqs [wordb, chr (\<lambda>c. c \<in> set ''1Iil''), chr (\<lambda>c. c \<in> set ''Zz''),
                        rep 8 20 (chr is_upper_or_digit), wordb]"

definition RE_GENERIC :: matcher where
  \<comment> \<open>\<^verbatim>\<open>\b[A-Z0-9]{8,25}\b\<close>\<close>
  "RE_GENERIC = seqs [wordb, rep 8 25 (chr is_upper_or_digit), wordb]"

definition KEYWORDS :: "string list" where
  "KEYWORDS = [''paketnummer'', ''frachtbrief'', ''tracking'', ''waybill'', ''awb'',
               ''referenz'', ''sendung'', ''shipment'', ''consignment'']"

definition fix_ocr :: "string \<Rightarrow> string" where
  \<comment> \<open>O and o become 0, then I and l become 1\<close>
  "fix_ocr s = replace_char CHR ''l'' CHR ''1'' (replace_char CHR ''I'' CHR ''1''
                 (replace_char CHR ''o'' CHR ''0'' (replace_char CHR ''O'' CHR ''0'' s)))"

definition clean_id :: "string \<Rightarrow> string" where
  \<comment> \<open>\<^verbatim>\<open>re.sub(r"[^A-Za-z0-9]", "", s)\<close>, then \<^verbatim>\<open>re.sub(r"^[Iil]", "1", cleaned)\<close>, then
      \<open>upper\<close>\<close>
  "clean_id s =
     (let cleaned = filter is_ascii_alnum s;
          cleaned = (case cleaned of
                       [] \<Rightarrow> []
                     | c # cs \<Rightarrow> if c \<in> set ''Iil'' then CHR ''1'' # cs else c # cs)
      in upper cleaned)"

definition RE_LEADING_ZEROS :: matcher where
  \<comment> \<open>\<^verbatim>\<open>^0{3,}\<close>\<close>
  "RE_LEADING_ZEROS = seqs [bos, exactly 3 (chr (\<lambda>c. c = CHR ''0'')), star (chr (\<lambda>c. c = CHR ''0''))]"

definition is_plausible :: "string \<Rightarrow> bool" where
  "is_plausible s =
     (if length s < 8 then False
      else if isdigit s \<and> length s < 10 then False
      else if re_match RE_LEADING_ZEROS s \<noteq> None then False
      else if contains ''PKG'' s \<or> contains ''PACKAGE'' s then False
      else True)"

fun loose_lines :: "string list \<Rightarrow> string option" where
  \<comment> \<open>tier 2: the first line with a loose match, after the OCR fixes\<close>
  "loose_lines [] = None"
| "loose_lines (line # ls) =
     (case findall RE_UPS_LOOSE (fix_ocr line) of
        [] \<Rightarrow> loose_lines ls
      | s # _ \<Rightarrow> Some (clean_id s))"

fun keyword_lines :: "string list \<Rightarrow> string option" where
  \<comment> \<open>tier 3: the first line with a keyword and a plausible generic candidate\<close>
  "keyword_lines [] = None"
| "keyword_lines (line # ls) =
     (if list_ex (\<lambda>k. contains k (lower line)) KEYWORDS then
        (case filter is_plausible (findall RE_GENERIC (fix_ocr line)) of
           [] \<Rightarrow> keyword_lines ls
         | c # _ \<Rightarrow> Some (clean_id c))
      else keyword_lines ls)"

definition IdentifierExtractor_extract :: "string \<Rightarrow> string option" where
  "IdentifierExtractor_extract t =
     (let lines = split_nl t in
      case findall RE_UPS_STRICT t of
        s # _ \<Rightarrow> Some (clean_id s)
      | [] \<Rightarrow>
          (case loose_lines lines of
             Some r \<Rightarrow> Some r
           | None \<Rightarrow>
               (case keyword_lines lines of
                  Some r \<Rightarrow> Some r
                | None \<Rightarrow>
                    (case filter is_plausible (findall RE_GENERIC (fix_ocr t)) of
                       [] \<Rightarrow> None
                     | c # _ \<Rightarrow> Some (clean_id c)))))"

section \<open>WeightExtractor: result\<close>

record weights =
  gross_weight :: "rat option"
  chargeable_weight :: "rat option"
  loading_meter :: "rat option"
  cubic_meter :: "rat option"
  pallet_amount :: "int option"

section \<open>WeightExtractor\<close>

definition no_match :: matcher where
  \<comment> \<open>a pattern with a character above 255: it matches nowhere in a Latin-1 subject\<close>
  "no_match = (\<lambda>st. [])"

definition is_dot_or_comma :: "char \<Rightarrow> bool" where
  \<comment> \<open>\<open>[.,]\<close>\<close>
  "is_dot_or_comma c = (c = CHR ''.'' \<or> c = CHR '','')"

definition RE_NUMBER :: matcher where
  \<comment> \<open>\<^verbatim>\<open>(\d+[.,]?\d*)\<close>\<close>
  "RE_NUMBER = grp (seqs [plus_greedy (chr is_digit), opt (chr is_dot_or_comma), star (chr is_digit)])"

definition RE_PAKETE :: matcher where
  \<comment> \<open>\<^verbatim>\<open>(pakete|pieces|st..ck|stk|packages|pkgs?|colis|pallets?)[:,]?\s*(\d+)\<close>, IGNORECASE.
      The third alternative is written in the source with the square-root sign
      U+221A in it.\<close>
  "RE_PAKETE = seqs [grp (alts [lit_ci ''pakete'', lit_ci ''pieces'', no_match, lit_ci ''stk'',
                                lit_ci ''packages'', seqs [lit_ci ''pkg'', opt (lit_ci ''s'')],
                                lit_ci ''colis'', seqs [lit_ci ''pallet'', opt (lit_ci ''s'')]]),
                     opt (chr (\<lambda>c. c = CHR '':'' \<or> c = CHR '','')), star (chr is_space),
                     grp (plus_greedy (chr is_digit))]"

definition RE_SERVICE_LINE_KEY :: matcher where
  \<comment> \<open>\<^verbatim>\<open>\b(WW|TB|Express|Worldwide|Package|PKG)\b\<close>, IGNORECASE\<close>
  "RE_SERVICE_LINE_KEY = seqs [wordb, grp (alts [lit_ci ''WW'', lit_ci ''TB'', lit_ci ''Express'',
                                 lit_ci ''Worldwide'', lit_ci ''Package'', lit_ci ''PKG'']), wordb]"

definition WeightExtractor_RE_TRACKING :: matcher where
  \<comment> \<open>\<^verbatim>\<open>\b1Z[0-9A-Z]{8,20}\b\<close>, IGNORECASE\<close>
  "WeightExtractor_RE_TRACKING = seqs [wordb, lit_ci ''1Z'', rep 8 20 (chr is_ascii_alnum), wordb]"

definition RE_WEIGHT_KW :: matcher where
  \<comment> \<open>\<^verbatim>\<open>(gross|brutto|actual weight|gewicht|weight|chargeable|chargeable weight|rechnungsgewicht)\<close>,
      IGNORECASE\<close>
  "RE_WEIGHT_KW = grp (alts [lit_ci ''gross'', lit_ci ''brutto'', lit_ci ''actual weight'',
                             lit_ci ''gewicht'', lit_ci ''weight'', lit_ci ''chargeable'',
                             lit_ci ''chargeable weight'', lit_ci ''rechnungsgewicht''])"

definition RE_LM :: matcher where
  \<comment> \<open>\<^verbatim>\<open>(lademeter|loading\s*meter|ld\.?m|lm)\<close>, IGNORECASE\<close>
  "RE_LM = grp (alts [lit_ci ''lademeter'',
                      seqs [lit_ci ''loading'', star (chr is_space), lit_ci ''meter''],
                      seqs [lit_ci ''ld'', opt (lit ''.''), lit_ci ''m''], lit_ci ''lm''])"

definition RE_CBM :: matcher where
  \<comment> \<open>\<^verbatim>\<open>(m3|cbm|cubic|kubik|volume)\<close>, IGNORECASE\<close>
  "RE_CBM = grp (alts [lit_ci ''m3'', lit_ci ''cbm'', lit_ci ''cubic'', lit_ci ''kubik'',
                       lit_ci ''volume''])"

definition RE_COST_ROW :: matcher where
  \<comment> \<open>\<^verbatim>\<open>\d+[,\.]\d{2}\s+\d+[,\.]\d{2}\<close>\<close>
  "RE_COST_ROW = seqs [plus_greedy (chr is_digit), chr is_dot_or_comma, exactly 2 (chr is_digit),
                       plus_greedy (chr is_space),
                       plus_greedy (chr is_digit), chr is_dot_or_comma, exactly 2 (chr is_digit)]"

definition RE_INT_FLOAT :: matcher where
  \<comment> \<open>\<^verbatim>\<open>\b(\d+)\s+(\d+[.,]\d+)\b\<close>\<close>
  "RE_INT_FLOAT = seqs [wordb, grp (plus_greedy (chr is_digit)), plus_greedy (chr is_space),
                        grp (seqs [plus_greedy (chr is_digit), chr is_dot_or_comma,
                                   plus_greedy (chr is_digit)]), wordb]"

definition RE_NUM_PKG :: matcher where
  \<comment> \<open>\<^verbatim>\<open>(\d+)\s*(?:PKG|pkg|Packages|PKGS)\b\<close>, IGNORECASE\<close>
  "RE_NUM_PKG = seqs [grp (plus_greedy (chr is_digit)), star (chr is_space),
                      alts [lit_ci ''PKG'', lit_ci ''pkg'', lit_ci ''Packages'', lit_ci ''PKGS''],
                      wordb]"

definition RE_CHARGEABLE :: matcher where
  \<comment> \<open>\<^verbatim>\<open>(chargeable|berechnet|frachtpflichtig|rechnungsgewicht)\<close>, IGNORECASE\<close>
  "RE_CHARGEABLE = grp (alts [lit_ci ''chargeable'', lit_ci ''berechnet'',
                              lit_ci ''frachtpflichtig'', lit_ci ''rechnungsgewicht''])"

definition WeightExtractor_to_float :: "string \<Rightarrow> rat option" where
  "WeightExtractor_to_float s =
     (case py_float (replace_char CHR '','' CHR ''.'' s) of
        None \<Rightarrow> None
      | Some v \<Rightarrow> if v < 10000000 then Some v else None)"

definition weights_init :: weights where
  "weights_init = \<lparr>gross_weight = None, chargeable_weight = None, loading_meter = None,
                   cubic_meter = None, pallet_amount = None\<rparr>"

definition pass1_line :: "weights \<Rightarrow> string \<Rightarrow> weights" where
  \<comment> \<open>pass 1, one line. On a tracking or service line: the pair "count weight", then
      "count PKG" when the count is still \<open>None\<close> or zero\<close>
  "pass1_line w line =
     (if found WeightExtractor_RE_TRACKING line \<or> found RE_SERVICE_LINE_KEY line then
        let w1 = (case search RE_INT_FLOAT line of
                    Some (t, g, b, s) \<Rightarrow>
                      w\<lparr>pallet_amount := Some (int_of_digits (g ! 0)),
                        gross_weight := WeightExtractor_to_float (g ! 1)\<rparr>
                  | None \<Rightarrow> w)
        in case search RE_NUM_PKG line of
             Some (t, g, b, s) \<Rightarrow>
               if pallet_amount w1 = None \<or> pallet_amount w1 = Some 0
               then w1\<lparr>pallet_amount := Some (int_of_digits (g ! 0))\<rparr> else w1
           | None \<Rightarrow> w1
      else w)"

definition pass2_line :: "weights \<Rightarrow> string \<Rightarrow> weights" where
  \<comment> \<open>pass 2, one line: explicit package or pallet keywords\<close>
  "pass2_line w line =
     (case search RE_PAKETE line of
        Some (t, g, b, s) \<Rightarrow> w\<lparr>pallet_amount := Some (int_of_digits (g ! 1))\<rparr>
      | None \<Rightarrow> w)"

definition pass3_line :: "weights \<Rightarrow> string \<Rightarrow> weights" where
  \<comment> \<open>pass 3, one line: weight, loading-meter and volume keywords take the last number
      of the line\<close>
  "pass3_line w line =
     (let nums = findall RE_NUMBER line;
          w1 = (if found RE_WEIGHT_KW line \<and> nums \<noteq> [] then
                  (case WeightExtractor_to_float (last nums) of
                     Some val \<Rightarrow>
                       if found RE_CHARGEABLE line then w\<lparr>chargeable_weight := Some val\<rparr>
                       else if gross_weight w = None then w\<lparr>gross_weight := Some val\<rparr>
                       else w
                   | None \<Rightarrow> w)
                else w);
          w2 = (if found RE_LM line \<and> nums \<noteq> []
                then w1\<lparr>loading_meter := WeightExtractor_to_float (last nums)\<rparr> else w1)
      in if found RE_CBM line \<and> nums \<noteq> []
         then w2\<lparr>cubic_meter := WeightExtractor_to_float (last nums)\<rparr> else w2)"

definition is_container_line :: "string \<Rightarrow> bool" where
  \<comment> \<open>\<^verbatim>\<open>"gewicht/container" in line.lower()\<close>\<close>
  "is_container_line line = contains ''gewicht/container'' (lower line)"

definition container_values :: "string \<Rightarrow> rat option list" where
  \<comment> \<open>\<^verbatim>\<open>[self._to_float(n) for n in nums if n]\<close>\<close>
  "container_values line =
     map WeightExtractor_to_float (filter (\<lambda>n. n \<noteq> []) (findall RE_NUMBER line))"

definition pass4_line :: "weights \<Rightarrow> string \<Rightarrow> py_error + weights" where
  \<comment> \<open>pass 4, one line: the line "Gewicht/Container". \<open>max\<close> and \<open>min\<close> raise TypeError
      when one of the two values is \<open>None\<close>\<close>
  "pass4_line w line =
     (if is_container_line line then
        (case container_values line of
           [Some a, Some b] \<Rightarrow> Inr (w\<lparr>chargeable_weight := Some (max a b),
                                       gross_weight := Some (min a b)\<rparr>)
         | [x, y] \<Rightarrow> Inl TypeError
         | [x] \<Rightarrow> if gross_weight w = None then Inr (w\<lparr>gross_weight := x\<rparr>) else Inr w
         | _ \<Rightarrow> Inr w)
      else Inr w)"

fun pass4 :: "string list \<Rightarrow> weights \<Rightarrow> py_error + weights" where
  "pass4 [] w = Inr w"
| "pass4 (line # ls) w = (case pass4_line w line of Inl e \<Rightarrow> Inl e | Inr w' \<Rightarrow> pass4 ls w')"

definition clean_lines :: "string \<Rightarrow> string list" where
  \<comment> \<open>the stripped non-empty lines without the cost rows\<close>
  "clean_lines t = filter (\<lambda>ln. \<not> found RE_COST_ROW ln) (stripped_lines t)"

definition passes123 :: "string list \<Rightarrow> weights" where
  \<comment> \<open>the first three loops, each over all lines\<close>
  "passes123 ls = foldl pass3_line (foldl pass2_line (foldl pass1_line weights_init ls) ls) ls"

definition WeightExtractor_extract :: "string \<Rightarrow> py_error + weights" where
  "WeightExtractor_extract t = pass4 (clean_lines t) (passes123 (clean_lines t))"

section \<open>Validator\<close>

record shipment_record =
  shipment_identifier :: string
  invoice_page :: "int option"
  shipment_date :: "string option"
  shipment_type :: "string option"
  currency_shipment :: "string option"
  origin_country :: "string option"
  origin_city :: "string option"
  origin_zipcode :: "string option"
  destination_country :: "string option"
  destination_city :: "string option"
  destination_zipcode :: "string option"
  record_gross_weight :: "rat option"
  record_chargeable_weight :: "rat option"
  record_loading_meter :: "rat option"
  record_cubic_meter :: "rat option"
  record_pallet_amount :: "int option"
  cost_items :: "cost_item list"

record date =
  year :: int
  month :: int
  day :: int

text \<open>
  The date parsers and the country table belong to external libraries; they are
  parameters of the model. \<open>None\<close> stands for the exception the library raises.
\<close>

record externals =
  strptime_iso :: "string \<Rightarrow> date option"  \<comment> \<open>\<^verbatim>\<open>datetime.strptime(value, "%Y-%m-%d")\<close>\<close>
  dateutil_parse :: "string \<Rightarrow> date option"  \<comment> \<open>\<^verbatim>\<open>parse(value, dayfirst=True)\<close>\<close>
  alpha2_known :: "string \<Rightarrow> bool"  \<comment> \<open>\<^verbatim>\<open>pycountry.countries.get(alpha_2=code)\<close> is a record\<close>
  country_lookup :: "string \<Rightarrow> string option"  \<comment> \<open>\<^verbatim>\<open>pycountry.countries.lookup(code).alpha_2\<close>\<close>

definition digit_char :: "int \<Rightarrow> char" where
  "digit_char d = ''0123456789'' ! nat d"

definition two_digits :: "int \<Rightarrow> string" where
  \<comment> \<open>\<open>%m\<close>, \<open>%d\<close>: two digits, zero padded\<close>
  "two_digits n = [digit_char (n div 10 mod 10), digit_char (n mod 10)]"

definition four_digits :: "int \<Rightarrow> string" where
  \<comment> \<open>\<open>%Y\<close> for the years 1000 to 9999 (below 1000 the padding depends on the platform)\<close>
  "four_digits n = two_digits (n div 100) @ two_digits (n mod 100)"

definition strftime_iso :: "date \<Rightarrow> string" where
  \<comment> \<open>\<^verbatim>\<open>dt.strftime("%Y-%m-%d")\<close>\<close>
  "strftime_iso d = four_digits (year d) @ ''-'' @ two_digits (month d) @ ''-'' @ two_digits (day d)"

definition clean_str :: "string option \<Rightarrow> string option" where
  "clean_str v = (case v of None \<Rightarrow> None
                  | Some s \<Rightarrow> if strip s = [] then None else Some (strip s))"

definition clean_float :: "rat option \<Rightarrow> rat option" where
  \<comment> \<open>\<open>float(value)\<close> of a float is the float\<close>
  "clean_float v = (case v of None \<Rightarrow> None | Some x \<Rightarrow> Some x)"

definition clean_int :: "int option \<Rightarrow> int option" where
  "clean_int v = (case v of None \<Rightarrow> None | Some n \<Rightarrow> Some n)"

definition clean_date :: "externals \<Rightarrow> string option \<Rightarrow> string option" where
  "clean_date ext v =
     (case v of
        None \<Rightarrow> None
      | Some s \<Rightarrow>
          if s = [] then None
          else case strptime_iso ext s of
                 Some dt \<Rightarrow> Some (strftime_iso dt)
               | None \<Rightarrow> (case dateutil_parse ext s of
                            Some dt \<Rightarrow> Some (strftime_iso dt)
                          | None \<Rightarrow> None))"

definition clean_country :: "externals \<Rightarrow> string option \<Rightarrow> string option" where
  "clean_country ext v =
     (case v of
        None \<Rightarrow> None
      | Some raw \<Rightarrow>
          if raw = [] then None
          else let code = upper (strip raw) in
               if alpha2_known ext code then Some code
               else case country_lookup ext code of
                      Some a2 \<Rightarrow> Some a2
                    | None \<Rightarrow> Some code)"

definition clean_cost_item :: "cost_item \<Rightarrow> cost_item" where
  "clean_cost_item item =
     item\<lparr>extracted_category := clean_str (extracted_category item),
          mention := clean_str (mention item),
          currency := clean_str (currency item),
          total_cost_in_shipment_currency := clean_float (total_cost_in_shipment_currency item)\<rparr>"

definition validate_record :: "externals \<Rightarrow> shipment_record \<Rightarrow> shipment_record" where
  "validate_record ext record =
     record\<lparr>shipment_date := clean_date ext (shipment_date record),
            origin_country := clean_country ext (origin_country record),
            destination_country := clean_country ext (destination_country record),
            origin_city := clean_str (origin_city record),
            destination_city := clean_str (destination_city record),
            shipment_type := clean_str (shipment_type record),
            currency_shipment := clean_str (currency_shipment record),
            origin_zipcode := clean_str (origin_zipcode record),
            destination_zipcode := clean_str (destination_zipcode record),
            record_gross_weight := clean_float (record_gross_weight record),
            record_chargeable_weight := clean_float (record_chargeable_weight record),
            record_loading_meter := clean_float (record_loading_meter record),
            record_cubic_meter := clean_float (record_cubic_meter record),
            record_pallet_amount := clean_int (record_pallet_amount record),
            cost_items := map clean_cost_item (cost_items record)\<rparr>"

section \<open>DateExtractor\<close>

text \<open>
  \<open>dateutil.parser.parse\<close> is a parameter of the model, as in the validator: a function
  from the text to the date, \<open>None\<close> standing for the exception that \<open>_safe_parse\<close>
  catches.
\<close>

type_synonym date_parser = "string \<Rightarrow> date option"

datatype date_error = KeyError

definition MONTH_MAP :: "(string \<times> string) list" where
  \<comment> \<open>the dictionary in the order of its keys\<close>
  "MONTH_MAP =
     [(''jan'', ''January''), (''januar'', ''January''), (''feb'', ''February''),
      (''februar'', ''February''), ([CHR ''m'', CHR 0xE4, CHR ''r''], ''March''),
      (''maerz'', ''March''), ([CHR ''m'', CHR 0xE4, CHR ''r'', CHR ''z''], ''March''),
      (''mar'', ''March''), (''mrz'', ''March''), (''apr'', ''April''), (''april'', ''April''),
      (''mai'', ''May''), (''jun'', ''June''), (''juni'', ''June''), (''jul'', ''July''),
      (''juli'', ''July''), (''aug'', ''August''), (''august'', ''August''),
      (''sep'', ''September''), (''sept'', ''September''), (''september'', ''September''),
      (''okt'', ''October''), (''oktober'', ''October''), (''oct'', ''October''),
      (''nov'', ''November''), (''november'', ''November''), (''dez'', ''December''),
      (''dezember'', ''December''), (''dec'', ''December'')]"

definition is_date_sep :: "char \<Rightarrow> bool" where
  \<comment> \<open>\<^verbatim>\<open>[./-]\<close>\<close>
  "is_date_sep c = (c = CHR ''.'' \<or> c = CHR ''/'' \<or> c = CHR ''-'')"

definition is_month_char :: "char \<Rightarrow> bool" where
  \<comment> \<open>the letters and the six umlauts\<close>
  "is_month_char c = (is_ascii_letter c \<or> is_umlaut c)"

definition RE_TEXTUAL :: matcher where
  \<comment> \<open>\<^verbatim>\<open>\b(\d{1,2})[\.\-/]?\s*([A-Za-z......]{3,12})\.?,?\s*(\d{2,4})?\b\<close>, the class of
      the second group holding the letters and the six umlauts\<close>
  "RE_TEXTUAL = seqs [wordb, grp (rep 1 2 (chr is_digit)), opt (chr is_date_sep),
                      star (chr is_space), grp (rep 3 12 (chr is_month_char)),
                      opt (lit ''.''), opt (lit '',''), star (chr is_space),
                      opt_grp (rep 2 4 (chr is_digit)), wordb]"

definition RE_NUMERIC_DMY :: matcher where
  \<comment> \<open>\<^verbatim>\<open>\b(\d{1,2})[./-](\d{1,2})[./-](\d{2,4})\b\<close>\<close>
  "RE_NUMERIC_DMY = seqs [wordb, grp (rep 1 2 (chr is_digit)), chr is_date_sep,
                          grp (rep 1 2 (chr is_digit)), chr is_date_sep,
                          grp (rep 2 4 (chr is_digit)), wordb]"

definition RE_NUMERIC_YMD :: matcher where
  \<comment> \<open>\<^verbatim>\<open>\b(\d{4})[./-](\d{1,2})[./-](\d{1,2})\b\<close>\<close>
  "RE_NUMERIC_YMD = seqs [wordb, grp (exactly 4 (chr is_digit)), chr is_date_sep,
                          grp (rep 1 2 (chr is_digit)), chr is_date_sep,
                          grp (rep 1 2 (chr is_digit)), wordb]"

definition RE_NUMERIC :: "matcher list" where
  "RE_NUMERIC = [RE_NUMERIC_DMY, RE_NUMERIC_YMD]"

definition normalize_month :: "string \<Rightarrow> string option" where
  \<comment> \<open>the key itself, else the first key with the same first three characters, else the
      first key with the same first two\<close>
  "normalize_month raw =
     (let r = replace_char CHR ''0'' CHR ''o'' (remove_char CHR ''.'' (lower raw));
          keys = map fst MONTH_MAP
      in if r \<in> set keys then Some r
         else case find (\<lambda>key. take 3 r = take 3 key) keys of
                Some key \<Rightarrow> Some key
              | None \<Rightarrow> find (\<lambda>key. take 2 r = take 2 key) keys)"

function str_nat :: "int \<Rightarrow> string" where
  \<comment> \<open>the decimal digits of a number that is not negative\<close>
  "str_nat n = (if n < 10 then [digit_char n] else str_nat (n div 10) @ [digit_char (n mod 10)])"
  by pat_completeness auto
termination
  by (relation "measure nat") auto

declare str_nat.simps [simp del]

definition str_int :: "int \<Rightarrow> string" where
  \<comment> \<open>\<open>str(n)\<close>\<close>
  "str_int n = (if n < 0 then CHR ''-'' # str_nat (- n) else str_nat n)"

definition py_int :: "string \<Rightarrow> int" where
  \<comment> \<open>\<open>int(s)\<close> for digits with an optional minus sign\<close>
  "py_int s = (case s of
                 [] \<Rightarrow> 0
               | c # cs \<Rightarrow> if c = CHR ''-'' then - int_of_digits cs else int_of_digits (c # cs))"

definition fix_year :: "string \<Rightarrow> int option \<Rightarrow> int option" where
  \<comment> \<open>the argument is a group of two to four digits\<close>
  "fix_year ys invoice_year =
     (let y = int_of_digits ys in
      if y \<ge> 1900 then Some y
      else if 0 \<le> y \<and> y < 100 then
        (case invoice_year of
           None \<Rightarrow> Some (2000 + y)
         | Some iy \<Rightarrow>
             if iy \<noteq> 0 then Some (py_int (take 2 (str_int iy) @ two_digits y))
             else Some (2000 + y))
      else None)"

definition textual_candidate :: "date_parser \<Rightarrow> int option \<Rightarrow> string list \<Rightarrow> date_error + date option" where
  \<comment> \<open>one round of the first loop, on the groups day, month and year of a match; the key
      that is missing from the dictionary raises KeyError\<close>
  "textual_candidate parse invoice_year g =
     (let day_raw = g ! 0; month_raw = g ! 1; year_raw = g ! 2 in
      case normalize_month month_raw of
        None \<Rightarrow> Inr None
      | Some month_key \<Rightarrow>
          if month_key = [] then Inr None
          else case map_of MONTH_MAP month_key of
                 None \<Rightarrow> Inl KeyError
               | Some month_name \<Rightarrow>
                   (case (if year_raw \<noteq> [] then fix_year year_raw invoice_year else invoice_year) of
                      None \<Rightarrow> Inr None
                    | Some yr \<Rightarrow>
                        if yr = 0 then Inr None
                        else Inr (parse (day_raw @ '' '' @ month_name @ '' '' @ str_int yr))))"

fun textual_candidates :: "date_parser \<Rightarrow> int option \<Rightarrow> string list list \<Rightarrow> date_error + date list" where
  "textual_candidates parse invoice_year [] = Inr []"
| "textual_candidates parse invoice_year (g # gs) =
     (case textual_candidate parse invoice_year g of
        Inl e \<Rightarrow> Inl e
      | Inr c \<Rightarrow>
          (case textual_candidates parse invoice_year gs of
             Inl e \<Rightarrow> Inl e
           | Inr cs \<Rightarrow> Inr ((case c of None \<Rightarrow> [] | Some d \<Rightarrow> [d]) @ cs)))"

definition numeric_candidate :: "date_parser \<Rightarrow> int option \<Rightarrow> string list \<Rightarrow> date option" where
  \<comment> \<open>one round of the second loop, on the three groups of a match\<close>
  "numeric_candidate parse invoice_year nums =
     (if length nums = 3 then
        let (d, m, y) = (if length (nums ! 0) \<le> 2 then (nums ! 0, nums ! 1, nums ! 2)
                         else (nums ! 2, nums ! 1, nums ! 0))
        in case fix_year y invoice_year of
             None \<Rightarrow> None
           | Some yr \<Rightarrow>
               if yr = 0 then None
               else parse (d @ ''-'' @ m @ ''-'' @ str_int yr)
      else None)"

definition numeric_candidates :: "date_parser \<Rightarrow> int option \<Rightarrow> string \<Rightarrow> date list" where
  "numeric_candidates parse invoice_year t =
     concat (map (\<lambda>regex. List.map_filter (numeric_candidate parse invoice_year)
                              (findall_groups regex t)) RE_NUMERIC)"

definition date_candidates :: "date_parser \<Rightarrow> string \<Rightarrow> int option \<Rightarrow> date_error + date list" where
  \<comment> \<open>the list \<open>candidates\<close> after the two loops\<close>
  "date_candidates parse t invoice_year =
     (case textual_candidates parse invoice_year (findall_groups RE_TEXTUAL t) of
        Inl e \<Rightarrow> Inl e
      | Inr cs \<Rightarrow> Inr (cs @ numeric_candidates parse invoice_year t))"

definition DateExtractor_extract :: "date_parser \<Rightarrow> string \<Rightarrow> int option \<Rightarrow> date_error + string option" where
  "DateExtractor_extract parse t invoice_year =
     (case date_candidates parse t invoice_year of
        Inl e \<Rightarrow> Inl e
      | Inr candidates \<Rightarrow>
          if candidates = [] then Inr None
          else Inr (Some (hd (sort (map strftime_iso candidates)))))"

definition date_before :: "date \<Rightarrow> date \<Rightarrow> bool" where
  \<comment> \<open>the order of the calendar\<close>
  "date_before a b = (year a < year b \<or> (year a = year b \<and>
                        (month a < month b \<or> (month a = month b \<and> day a < day b))))"

definition four_digit_date :: "date \<Rightarrow> bool" where
  \<comment> \<open>a date of the years 1000 to 9999\<close>
  "four_digit_date d = (1000 \<le> year d \<and> year d \<le> 9999 \<and> 1 \<le> month d \<and> month d \<le> 12
                        \<and> 1 \<le> day d \<and> day d \<le> 31)"

definition simple_parser :: date_parser where
  \<comment> \<open>a parser for the texts \<open>d-m-y\<close> only: what \<open>parse(ds, dayfirst=True)\<close> yields on a
      numeric day, month and year when they are a day, a month and a year\<close>
  "simple_parser s =
     (case split_on CHR ''-'' s of
        [d, m, y] \<Rightarrow>
          if list_all is_digit (d @ m @ y) \<and> d \<noteq> [] \<and> m \<noteq> [] \<and> y \<noteq> []
             \<and> 1 \<le> int_of_digits d \<and> int_of_digits d \<le> 28
             \<and> 1 \<le> int_of_digits m \<and> int_of_digits m \<le> 12
             \<and> 1000 \<le> int_of_digits y \<and> int_of_digits y \<le> 9999
          then Some \<lparr>year = int_of_digits y, month = int_of_digits m, day = int_of_digits d\<rparr>
          else None
      | _ \<Rightarrow> None)"

section \<open>Orchestrator\<close>

record locations =
  loc_origin_country :: "string option"
  loc_origin_city :: "string option"
  loc_origin_zipcode :: "string option"
  loc_destination_country :: "string option"
  loc_destination_city :: "string option"
  loc_destination_zipcode :: "string option"

fun first_currency :: "cost_item list \<Rightarrow> string option" where
  \<comment> \<open>the loop of \<open>_extract_block_currency\<close>, over the reversed list: the first currency
      that is neither \<open>None\<close> nor empty\<close>
  "first_currency [] = None"
| "first_currency (item # items) =
     (case currency item of
        Some c \<Rightarrow> if c \<noteq> [] then Some c else first_currency items
      | None \<Rightarrow> first_currency items)"

definition extract_block_currency :: "cost_item list \<Rightarrow> string option" where
  "extract_block_currency items = first_currency (rev items)"

definition block_result :: "string \<Rightarrow> int option \<Rightarrow> string option \<Rightarrow> string option \<Rightarrow> locations
                            \<Rightarrow> weights \<Rightarrow> cost_item list \<Rightarrow> shipment_record" where
  \<comment> \<open>the record that \<open>extract_invoice\<close> assembles for a block from the results of the
      extractors\<close>
  "block_result ident page sdate stype loc w items =
     \<lparr>shipment_identifier = ident, invoice_page = page, shipment_date = sdate, shipment_type = stype,
      currency_shipment = extract_block_currency items,
      origin_country = loc_origin_country loc, origin_city = loc_origin_city loc,
      origin_zipcode = loc_origin_zipcode loc,
      destination_country = loc_destination_country loc,
      destination_city = loc_destination_city loc,
      destination_zipcode = loc_destination_zipcode loc,
      record_gross_weight = gross_weight w, record_chargeable_weight = chargeable_weight w,
      record_loading_meter = loading_meter w, record_cubic_meter = cubic_meter w,
      record_pallet_amount = pallet_amount w, cost_items = items\<rparr>"

definition last_currency :: "cost_item list \<Rightarrow> string option" where
  \<comment> \<open>the currency of the last item that has one\<close>
  "last_currency items =
     (case filter (\<lambda>item. currency item \<noteq> None) items of
        [] \<Rightarrow> None | x # xs \<Rightarrow> currency (last (x # xs)))"

definition reads_such :: "(string \<Rightarrow> bool) \<Rightarrow> matcher \<Rightarrow> bool" where
  \<comment> \<open>every match of \<open>m\<close> reads a piece of the subject that satisfies \<open>Q\<close>\<close>
  "reads_such Q m = (\<forall>st st'. st' \<in> set (m st) \<longrightarrow> (\<exists>w. reads st w st' \<and> Q w))"

definition ends_with_space :: "string \<Rightarrow> bool" where
  "ends_with_space w = (w \<noteq> [] \<and> is_space (last w))"

definition number_char :: "char \<Rightarrow> bool" where
  \<comment> \<open>the characters of a German-formatted number\<close>
  "number_char c = (is_digit c \<or> c = CHR ''.'' \<or> c = CHR '','')"

definition numcols_columns :: matcher where
  \<comment> \<open>the part \<^verbatim>\<open>(number\s+)+\<close> of \<open>ROW_RE\<close>\<close>
  "numcols_columns = plus_greedy (seqs [german_number, plus_greedy (chr is_space)])"

definition currency_code :: "string \<Rightarrow> bool" where
  \<comment> \<open>a non-empty string of ASCII letters\<close>
  "currency_code c = (c \<noteq> [] \<and> list_all is_ascii_letter c)"

definition currency_ok :: "string option \<Rightarrow> bool" where
  "currency_ok v = (case v of None \<Rightarrow> True | Some c \<Rightarrow> currency_code c)"

definition german_value :: "string \<Rightarrow> rat" where
  \<comment> \<open>the number that a German-formatted token denotes: the digits before the comma
      (the dots only group the thousands) are the integral part, the digits after the
      comma the decimals\<close>
  "german_value tok =
     (let ip = takeWhile (\<lambda>c. c \<noteq> CHR '','') tok;
          dec = tl (dropWhile (\<lambda>c. c \<noteq> CHR '','') tok)
      in of_int (int_of_digits (filter is_digit ip)) + of_int (int_of_digits dec) / 10 ^ length dec)"

definition zero_ratio :: ratio where
  \<comment> \<open>a score for examples: nothing is similar to any key, so the raw description is
      kept as the category\<close>
  "zero_ratio k d = 0"

chapter \<open>Properties\<close>

section \<open>Evaluating the character classes\<close>

text \<open>
  The classes on a character given by its bits, for fast evaluation on literals.
\<close>

lemma is_digit_bits [simp, code]:
  "is_digit (Char b0 b1 b2 b3 b4 b5 b6 b7) \<longleftrightarrow>
     (\<not> b7 \<and> (\<not> b6 \<and> (b5 \<and> (b4 \<and> (\<not> b3 \<or> (\<not> b2 \<and> \<not> b1))))))"
  by (cases b0; cases b1; cases b2; cases b3; cases b4; cases b5; cases b6; cases b7)
     (simp_all add: is_digit_def in_range_def)

lemma is_upper_az_bits [simp, code]:
  "is_upper_az (Char b0 b1 b2 b3 b4 b5 b6 b7) \<longleftrightarrow>
     (\<not> b7 \<and> (b6 \<and> (\<not> b5 \<and> (if b4 then (\<not> b3 \<or> (\<not> b2 \<and> (\<not> b1 \<or> \<not> b0))) else (b3 \<or> (b2 \<or> (b1 \<or> b0)))))))"
  by (cases b0; cases b1; cases b2; cases b3; cases b4; cases b5; cases b6; cases b7)
     (simp_all add: is_upper_az_def in_range_def)

lemma is_lower_az_bits [simp, code]:
  "is_lower_az (Char b0 b1 b2 b3 b4 b5 b6 b7) \<longleftrightarrow>
     (\<not> b7 \<and> (b6 \<and> (b5 \<and> (if b4 then (\<not> b3 \<or> (\<not> b2 \<and> (\<not> b1 \<or> \<not> b0))) else (b3 \<or> (b2 \<or> (b1 \<or> b0)))))))"
  by (cases b0; cases b1; cases b2; cases b3; cases b4; cases b5; cases b6; cases b7)
     (simp_all add: is_lower_az_def in_range_def)

lemma is_space_bits [simp, code]:
  "is_space (Char b0 b1 b2 b3 b4 b5 b6 b7) \<longleftrightarrow>
     (if b7 then (\<not> b6 \<and> (if b5 then (\<not> b4 \<and> (\<not> b3 \<and> (\<not> b2 \<and> (\<not> b1 \<and> \<not> b0)))) else (\<not> b4 \<and> (\<not> b3 \<and> (b2 \<and> (\<not> b1 \<and> b0)))))) else (\<not> b6 \<and> (if b5 then (\<not> b4 \<and> (\<not> b3 \<and> (\<not> b2 \<and> (\<not> b1 \<and> \<not> b0)))) else (if b4 then (b3 \<and> b2) else (b3 \<and> (if b2 then \<not> b1 else (b1 \<or> b0)))))))"
  by (cases b0; cases b1; cases b2; cases b3; cases b4; cases b5; cases b6; cases b7)
     (simp_all add: is_space_def in_range_def)

lemma is_upper_latin1_bits [simp, code]:
  "is_upper_latin1 (Char b0 b1 b2 b3 b4 b5 b6 b7) \<longleftrightarrow>
     (b7 \<and> (b6 \<and> (\<not> b5 \<and> (\<not> b4 \<or> (if b3 then (\<not> b2 \<or> (\<not> b1 \<or> \<not> b0)) else (\<not> b2 \<or> (\<not> b1 \<or> \<not> b0)))))))"
  by (cases b0; cases b1; cases b2; cases b3; cases b4; cases b5; cases b6; cases b7)
     (simp_all add: is_upper_latin1_def in_range_def)

lemma is_lower_latin1_bits [simp, code]:
  "is_lower_latin1 (Char b0 b1 b2 b3 b4 b5 b6 b7) \<longleftrightarrow>
     (b7 \<and> (b6 \<and> (b5 \<and> (\<not> b4 \<or> (if b3 then (\<not> b2 \<or> (\<not> b1 \<or> \<not> b0)) else (\<not> b2 \<or> (\<not> b1 \<or> \<not> b0)))))))"
  by (cases b0; cases b1; cases b2; cases b3; cases b4; cases b5; cases b6; cases b7)
     (simp_all add: is_lower_latin1_def in_range_def)

lemma is_latin1_numeric_bits [simp, code]:
  "is_latin1_numeric (Char b0 b1 b2 b3 b4 b5 b6 b7) \<longleftrightarrow>
     (b7 \<and> (\<not> b6 \<and> (b5 \<and> (b4 \<and> (if b3 then (if b2 then (\<not> b1 \<or> \<not> b0) else (\<not> b1 \<and> b0)) else (\<not> b2 \<and> b1))))))"
  by (cases b0; cases b1; cases b2; cases b3; cases b4; cases b5; cases b6; cases b7)
     (simp_all add: is_latin1_numeric_def in_range_def)

lemma is_latin1_letter_bits [simp, code]:
  "is_latin1_letter (Char b0 b1 b2 b3 b4 b5 b6 b7) \<longleftrightarrow>
     (b7 \<and> (if b6 then (if b5 then (\<not> b4 \<or> (b3 \<or> (\<not> b2 \<or> (\<not> b1 \<or> \<not> b0)))) else (\<not> b4 \<or> (b3 \<or> (\<not> b2 \<or> (\<not> b1 \<or> \<not> b0))))) else (b5 \<and> (if b4 then (if b3 then (\<not> b2 \<and> (b1 \<and> \<not> b0)) else (b2 \<and> (\<not> b1 \<and> b0))) else (b3 \<and> (\<not> b2 \<and> (b1 \<and> \<not> b0)))))))"
  unfolding is_latin1_letter_def is_upper_latin1_bits is_lower_latin1_bits
  by (cases b0; cases b1; cases b2; cases b3; cases b4; cases b5; cases b6; cases b7) simp_all

lemma is_ascii_letter_bits [simp, code]:
  "is_ascii_letter (Char b0 b1 b2 b3 b4 b5 b6 b7) \<longleftrightarrow>
     (\<not> b7 \<and> (b6 \<and> (if b5 then (if b4 then (\<not> b3 \<or> (\<not> b2 \<and> (\<not> b1 \<or> \<not> b0))) else (b3 \<or> (b2 \<or> (b1 \<or> b0)))) else (if b4 then (\<not> b3 \<or> (\<not> b2 \<and> (\<not> b1 \<or> \<not> b0))) else (b3 \<or> (b2 \<or> (b1 \<or> b0)))))))"
  unfolding is_ascii_letter_def is_upper_az_bits is_lower_az_bits
  by (cases b0; cases b1; cases b2; cases b3; cases b4; cases b5; cases b6; cases b7) simp_all

lemma is_ascii_alnum_bits [simp, code]:
  "is_ascii_alnum (Char b0 b1 b2 b3 b4 b5 b6 b7) \<longleftrightarrow>
     (\<not> b7 \<and> (if b6 then (if b5 then (if b4 then (\<not> b3 \<or> (\<not> b2 \<and> (\<not> b1 \<or> \<not> b0))) else (b3 \<or> (b2 \<or> (b1 \<or> b0)))) else (if b4 then (\<not> b3 \<or> (\<not> b2 \<and> (\<not> b1 \<or> \<not> b0))) else (b3 \<or> (b2 \<or> (b1 \<or> b0))))) else (b5 \<and> (b4 \<and> (\<not> b3 \<or> (\<not> b2 \<and> \<not> b1))))))"
  unfolding is_ascii_alnum_def is_ascii_letter_bits is_digit_bits
  by (cases b0; cases b1; cases b2; cases b3; cases b4; cases b5; cases b6; cases b7) simp_all

lemma is_upper_or_digit_bits [simp, code]:
  "is_upper_or_digit (Char b0 b1 b2 b3 b4 b5 b6 b7) \<longleftrightarrow>
     (\<not> b7 \<and> (if b6 then (\<not> b5 \<and> (if b4 then (\<not> b3 \<or> (\<not> b2 \<and> (\<not> b1 \<or> \<not> b0))) else (b3 \<or> (b2 \<or> (b1 \<or> b0))))) else (b5 \<and> (b4 \<and> (\<not> b3 \<or> (\<not> b2 \<and> \<not> b1))))))"
  unfolding is_upper_or_digit_def is_upper_az_bits is_digit_bits
  by (cases b0; cases b1; cases b2; cases b3; cases b4; cases b5; cases b6; cases b7) simp_all

lemma is_word_bits [simp, code]:
  "is_word (Char b0 b1 b2 b3 b4 b5 b6 b7) \<longleftrightarrow>
     (if b7 then (if b6 then (if b5 then (\<not> b4 \<or> (b3 \<or> (\<not> b2 \<or> (\<not> b1 \<or> \<not> b0)))) else (\<not> b4 \<or> (b3 \<or> (\<not> b2 \<or> (\<not> b1 \<or> \<not> b0))))) else (b5 \<and> (if b4 then (if b3 then (if b2 then (\<not> b1 \<or> \<not> b0) else (if b1 then \<not> b0 else b0)) else (if b2 then (\<not> b1 \<and> b0) else b1)) else (b3 \<and> (\<not> b2 \<and> (b1 \<and> \<not> b0)))))) else (if b6 then (if b5 then (if b4 then (\<not> b3 \<or> (\<not> b2 \<and> (\<not> b1 \<or> \<not> b0))) else (b3 \<or> (b2 \<or> (b1 \<or> b0)))) else (if b4 then (\<not> b3 \<or> (if b2 then (b1 \<and> b0) else (\<not> b1 \<or> \<not> b0))) else (b3 \<or> (b2 \<or> (b1 \<or> b0))))) else (b5 \<and> (b4 \<and> (\<not> b3 \<or> (\<not> b2 \<and> \<not> b1))))))"
  unfolding is_word_def is_ascii_alnum_bits is_latin1_letter_bits is_latin1_numeric_bits
  by (cases b0; cases b1; cases b2; cases b3; cases b4; cases b5; cases b6; cases b7) simp_all

lemma str_isdigit_char_bits [simp, code]:
  "str_isdigit_char (Char b0 b1 b2 b3 b4 b5 b6 b7) \<longleftrightarrow>
     (if b7 then (\<not> b6 \<and> (b5 \<and> (b4 \<and> (if b3 then (\<not> b2 \<and> (\<not> b1 \<and> b0)) else (\<not> b2 \<and> b1))))) else (\<not> b6 \<and> (b5 \<and> (b4 \<and> (\<not> b3 \<or> (\<not> b2 \<and> \<not> b1))))))"
  unfolding str_isdigit_char_def is_digit_bits
  by (cases b0; cases b1; cases b2; cases b3; cases b4; cases b5; cases b6; cases b7) simp_all

section \<open>Segmentation\<close>

lemma foldl_line_step_outside:
  "\<not> inside_shipment st \<Longrightarrow> \<forall>l\<in>set ls. \<not> has_tracking l \<Longrightarrow> foldl (line_step p) st ls = st"
  by (induction ls arbitrary: st) (auto simp: line_step_def)

lemma foldl_line_step_inside:
  "inside_shipment st \<Longrightarrow> \<forall>l\<in>set ls. \<not> has_tracking l \<Longrightarrow>
   foldl (line_step p) st ls = st\<lparr>current_lines := current_lines st @ filter not_hf ls\<rparr>"
  by (induction ls arbitrary: st) (auto simp: line_step_def not_hf_def)

lemma line_step_tracking:
  "has_tracking l \<Longrightarrow> \<not> is_header_or_footer l \<Longrightarrow> \<not> inside_shipment st \<Longrightarrow>
   line_step p st l = st\<lparr>inside_shipment := True, current_page_start := Some (page_num p),
                          current_lines := current_lines st @ [l]\<rparr>"
  by (simp add: line_step_def Let_def)

lemma one_tracking_line_split:
  assumes "one_tracking_line p"
  obtains us tk vs where "stripped_lines (page_text p) = us @ tk # vs"
    "\<forall>u\<in>set us. \<not> has_tracking u" "has_tracking tk" "\<not> is_header_or_footer tk"
    "\<forall>v\<in>set vs. \<not> has_tracking v"
proof -
  from assms obtain tk where f: "filter has_tracking (stripped_lines (page_text p)) = [tk]"
    and nh: "\<not> is_header_or_footer tk"
    by (auto simp: one_tracking_line_def split: list.splits)
  from f obtain us vs where "stripped_lines (page_text p) = us @ tk # vs"
    "\<forall>u\<in>set us. \<not> has_tracking u" "has_tracking tk" "[] = filter has_tracking vs"
    unfolding filter_eq_Cons_iff by blast
  moreover from this have "\<forall>v\<in>set vs. \<not> has_tracking v"
    by (metis filter_empty_conv)
  ultimately show ?thesis using nh that by blast
qed

lemma page_lines_fold:
  assumes "one_tracking_line p" "\<not> inside_shipment st" "current_lines st = []"
  shows "foldl (line_step p) st (stripped_lines (page_text p)) =
         st\<lparr>inside_shipment := True, current_page_start := Some (page_num p),
            current_lines := filter not_hf
              (dropWhile (\<lambda>l. \<not> has_tracking l) (stripped_lines (page_text p)))\<rparr>"
proof -
  from assms(1) obtain us tk vs where sp: "stripped_lines (page_text p) = us @ tk # vs"
    and us: "\<forall>u\<in>set us. \<not> has_tracking u" and tk: "has_tracking tk" "\<not> is_header_or_footer tk"
    and vs: "\<forall>v\<in>set vs. \<not> has_tracking v"
    by (rule one_tracking_line_split)
  have dw: "dropWhile (\<lambda>l. \<not> has_tracking l) (us @ tk # vs) = tk # vs"
    using us tk by (simp add: dropWhile_append3)
  have "foldl (line_step p) st (us @ tk # vs) =
        foldl (line_step p) (line_step p st tk) vs"
    using foldl_line_step_outside[OF assms(2) us] by simp
  also have "\<dots> = (line_step p st tk)\<lparr>current_lines := current_lines (line_step p st tk) @ filter not_hf vs\<rparr>"
    using vs tk assms(2) by (intro foldl_line_step_inside) (simp_all add: line_step_tracking)
  finally show ?thesis
    using tk assms(2,3) by (simp add: sp dw line_step_tracking not_hf_def)
qed

lemma one_tracking_line_ex: "one_tracking_line p \<Longrightarrow> list_ex has_tracking (stripped_lines (page_text p))"
  by (erule one_tracking_line_split) (auto simp: list_ex_iff)

lemma page_block_lines_nonempty:
  "one_tracking_line p \<Longrightarrow>
   filter not_hf (dropWhile (\<lambda>l. \<not> has_tracking l) (stripped_lines (page_text p))) \<noteq> []"
  by (erule one_tracking_line_split) (auto simp: dropWhile_append3 not_hf_def)

lemma page_loop_one_per_page:
  "\<forall>p\<in>set pages. one_tracking_line p \<Longrightarrow> \<not> inside_shipment st \<Longrightarrow> current_lines st = [] \<Longrightarrow>
   flush (page_loop pages st) = blocks st @ map page_block pages"
proof (induction pages arbitrary: st)
  case Nil
  then show ?case by (simp add: flush_def)
next
  case (Cons p ps)
  let ?st1 = "foldl (line_step p) st (stripped_lines (page_text p))"
  have p: "one_tracking_line p" using Cons.prems by simp
  note st1 = page_lines_fold[OF p Cons.prems(2,3)]
  show ?case
  proof (cases ps)
    case Nil
    then show ?thesis
      using st1 page_block_lines_nonempty[OF p]
      by (simp add: page_break_def flush_def close_block_def page_block_def)
  next
    case (Cons q qs)
    then have q: "list_ex has_tracking (stripped_lines (page_text q))"
      using Cons.prems(1) one_tracking_line_ex by simp
    let ?st2 = "page_break ?st1 ps"
    have st2: "?st2 = ?st1\<lparr>blocks := blocks st @ [page_block p], current_lines := [],
                inside_shipment := False\<rparr>"
      using q Cons st1 by (simp add: page_break_def close_block_def page_block_def)
    have "flush (page_loop ps ?st2) = blocks ?st2 @ map page_block ps"
      using Cons.prems(1) st2 by (intro Cons.IH) simp_all
    then show ?thesis using st2 by simp
  qed
qed

lemma segment_one_per_page:
  "\<forall>p\<in>set pages. one_tracking_line p \<Longrightarrow> segment pages = map page_block pages"
  using page_loop_one_per_page[of pages seg_init] by (simp add: segment_def seg_init_def)

lemma page_block_prefix:
  "one_tracking_line p \<Longrightarrow>
   prefix (hd (filter has_tracking (stripped_lines (page_text p)))) (block_text (page_block p))"
proof (erule one_tracking_line_split)
  fix us tk vs
  assume sp: "stripped_lines (page_text p) = us @ tk # vs"
    and us: "\<forall>u\<in>set us. \<not> has_tracking u" and tk: "has_tracking tk" "\<not> is_header_or_footer tk"
  have "dropWhile (\<lambda>l. \<not> has_tracking l) (us @ tk # vs) = tk # vs"
    using us tk by (simp add: dropWhile_append3)
  moreover have "filter has_tracking (us @ tk # vs) = tk # filter has_tracking vs"
    using us tk by simp
  moreover have "prefix tk (join_nl (tk # ws))" for ws
    by (cases ws) simp_all
  ultimately show ?thesis using tk by (simp add: page_block_def sp not_hf_def)
qed

text \<open>
  C1 (as amended). When every page has exactly one line with a tracking number, and that
  line is not itself a header or footer line, \<open>segment\<close> returns one block per page, in
  page order; each block carries its page's number and its text starts with the page's
  tracking line.
\<close>

theorem segment_one_block_per_page:
  assumes "\<forall>p\<in>set pages. \<exists>tk. filter has_tracking (stripped_lines (page_text p)) = [tk]
             \<and> \<not> is_header_or_footer tk"
  shows "length (segment pages) = length pages \<and>
         (\<forall>i<length pages.
            block_page_num (segment pages ! i) = Some (page_num (pages ! i)) \<and>
            prefix (hd (filter has_tracking (stripped_lines (page_text (pages ! i)))))
                   (block_text (segment pages ! i)))"
proof -
  have h: "\<forall>p\<in>set pages. one_tracking_line p"
    using assms by (auto simp: one_tracking_line_def)
  show ?thesis
    using h segment_one_per_page[OF h] page_block_prefix by (simp add: page_block_def)
qed

theorem segment_one_block_per_page_witness:
  "length (segment [\<lparr>page_num = 1, page_text = ''Sendung 1Z12345678 WW\<newline>Gewicht 5,0'', is_scanned = False\<rparr>,
                    \<lparr>page_num = 2, page_text = ''Seite 2\<newline>1Z12345679AB\<newline>Transport'', is_scanned = False\<rparr>]) = 2
   \<and> map block_page_num (segment [\<lparr>page_num = 1, page_text = ''Sendung 1Z12345678 WW\<newline>Gewicht 5,0'', is_scanned = False\<rparr>,
                    \<lparr>page_num = 2, page_text = ''Seite 2\<newline>1Z12345679AB\<newline>Transport'', is_scanned = False\<rparr>])
      = [Some 1, Some 2]"
proof -
  let ?p1 = "\<lparr>page_num = 1, page_text = ''Sendung 1Z12345678 WW\<newline>Gewicht 5,0'', is_scanned = False\<rparr>"
  let ?p2 = "\<lparr>page_num = 2, page_text = ''Seite 2\<newline>1Z12345679AB\<newline>Transport'', is_scanned = False\<rparr>"
  have l1: "filter has_tracking (stripped_lines (page_text ?p1)) = [''Sendung 1Z12345678 WW'']"
    by code_simp
  have l2: "filter has_tracking (stripped_lines (page_text ?p2)) = [''1Z12345679AB'']"
    by code_simp
  have n1: "\<not> is_header_or_footer ''Sendung 1Z12345678 WW''" by code_simp
  have n2: "\<not> is_header_or_footer ''1Z12345679AB''" by code_simp
  have h: "\<forall>p\<in>set [?p1, ?p2]. \<exists>tk. filter has_tracking (stripped_lines (page_text p)) = [tk]
             \<and> \<not> is_header_or_footer tk"
    using l1 l2 n1 n2 by simp
  have "length (segment [?p1, ?p2]) = 2"
    using segment_one_block_per_page[OF h] by simp
  moreover have "block_page_num (segment [?p1, ?p2] ! 0) = Some 1"
    using segment_one_block_per_page[OF h] by simp
  moreover have "block_page_num (segment [?p1, ?p2] ! 1) = Some 2"
    using segment_one_block_per_page[OF h] by simp
  ultimately show ?thesis
    by (cases "segment [?p1, ?p2]") (auto simp: length_Suc_conv)
qed

text \<open>
  C1 as stated fails: a page whose only tracking line also contains a header word
  (here \<open>UPS\<close>) yields no block, because header lines are discarded before the
  tracking test.
\<close>

theorem segment_header_tracking_counterexample:
  "length (filter has_tracking
      (stripped_lines (page_text \<lparr>page_num = 1, page_text = ''UPS 1Z12345678'', is_scanned = False\<rparr>))) = 1
   \<and> segment [\<lparr>page_num = 1, page_text = ''UPS 1Z12345678'', is_scanned = False\<rparr>] = []"
  by code_simp

text \<open>
  C2 (as amended). For two consecutive pages where the first has exactly one line with a
  tracking number, that line being neither a header nor a footer line, and the second
  has no line with a tracking number, \<open>segment\<close> returns exactly one block. Its text is
  the first page's lines from the tracking line on followed by the second page's lines,
  header and footer lines left out, and its page number is the first page's.
\<close>

theorem segment_continuation_page:
  assumes "filter has_tracking (stripped_lines (page_text p1)) = [tk]"
    and "\<not> is_header_or_footer tk"
    and "\<not> list_ex has_tracking (stripped_lines (page_text p2))"
  shows "segment [p1, p2] =
         [\<lparr>block_text = join_nl
             (filter not_hf (dropWhile (\<lambda>l. \<not> has_tracking l) (stripped_lines (page_text p1)))
              @ filter not_hf (stripped_lines (page_text p2))),
           block_page_num = Some (page_num p1)\<rparr>]"
proof -
  have one: "one_tracking_line p1"
    using assms(1,2) by (simp add: one_tracking_line_def)
  define L1 where
    "L1 = filter not_hf (dropWhile (\<lambda>l. \<not> has_tracking l) (stripped_lines (page_text p1)))"
  define st1 where "st1 = foldl (line_step p1) seg_init (stripped_lines (page_text p1))"
  define st2 where "st2 = foldl (line_step p2) st1 (stripped_lines (page_text p2))"
  have st1: "st1 = seg_init\<lparr>inside_shipment := True, current_page_start := Some (page_num p1),
                             current_lines := L1\<rparr>"
    unfolding st1_def L1_def by (rule page_lines_fold[OF one]) (simp_all add: seg_init_def)
  have pb1: "page_break st1 [p2] = st1"
    using assms(3) by (simp add: page_break_def)
  have no2: "\<forall>l\<in>set (stripped_lines (page_text p2)). \<not> has_tracking l"
    using assms(3) by (simp add: list_ex_iff)
  have "st2 = st1\<lparr>current_lines := current_lines st1 @ filter not_hf (stripped_lines (page_text p2))\<rparr>"
    unfolding st2_def by (rule foldl_line_step_inside[OF _ no2]) (simp add: st1)
  then have st2: "st2 = seg_init\<lparr>inside_shipment := True, current_page_start := Some (page_num p1),
      current_lines := L1 @ filter not_hf (stripped_lines (page_text p2))\<rparr>"
    by (simp add: st1)
  have "page_loop [p1, p2] seg_init = page_break st2 []"
    by (simp add: pb1 st1_def[symmetric] st2_def[symmetric])
  also have "\<dots> = st2" by (simp add: page_break_def)
  finally have seg: "segment [p1, p2] = flush st2" by (simp add: segment_def)
  have ne: "L1 \<noteq> []" unfolding L1_def by (rule page_block_lines_nonempty[OF one])
  have "flush st2 =
         [\<lparr>block_text = join_nl (L1 @ filter not_hf (stripped_lines (page_text p2))),
           block_page_num = Some (page_num p1)\<rparr>]"
    using ne by (simp add: st2 flush_def close_block_def seg_init_def)
  with seg show ?thesis by (simp add: L1_def)
qed

theorem segment_continuation_page_witness:
  "segment [\<lparr>page_num = 3, page_text = ''Seite 3\<newline>Sendung 1Z12345678 WW\<newline>Gewicht 5,0'', is_scanned = False\<rparr>,
            \<lparr>page_num = 4, page_text = ''Seite 4\<newline>Transport 10,00 8,00'', is_scanned = False\<rparr>]
   = [\<lparr>block_text = ''Sendung 1Z12345678 WW\<newline>Gewicht 5,0\<newline>Transport 10,00 8,00'',
       block_page_num = Some 3\<rparr>]"
proof -
  let ?p1 = "\<lparr>page_num = 3, page_text = ''Seite 3\<newline>Sendung 1Z12345678 WW\<newline>Gewicht 5,0'', is_scanned = False\<rparr>"
  let ?p2 = "\<lparr>page_num = 4, page_text = ''Seite 4\<newline>Transport 10,00 8,00'', is_scanned = False\<rparr>"
  have h1: "filter has_tracking (stripped_lines (page_text ?p1)) = [''Sendung 1Z12345678 WW'']"
    by code_simp
  have h2: "\<not> is_header_or_footer ''Sendung 1Z12345678 WW''" by code_simp
  have h3: "\<not> list_ex has_tracking (stripped_lines (page_text ?p2))" by code_simp
  have e: "join_nl
             (filter not_hf (dropWhile (\<lambda>l. \<not> has_tracking l) (stripped_lines (page_text ?p1)))
              @ filter not_hf (stripped_lines (page_text ?p2)))
           = ''Sendung 1Z12345678 WW\<newline>Gewicht 5,0\<newline>Transport 10,00 8,00''"
    by code_simp
  show ?thesis
    using segment_continuation_page[OF h1 h2 h3] e by simp
qed

text \<open>
  C2 as stated fails: when the only tracking line of the first page also contains a
  header word, that line is discarded and no block is opened at all.
\<close>

theorem segment_continuation_counterexample:
  "length (filter has_tracking (stripped_lines
      (page_text \<lparr>page_num = 1, page_text = ''UPS 1Z12345678\<newline>Gewicht 5,0'', is_scanned = False\<rparr>))) = 1
   \<and> \<not> list_ex has_tracking (stripped_lines
      (page_text \<lparr>page_num = 2, page_text = ''Transport 10,00 8,00'', is_scanned = False\<rparr>))
   \<and> segment [\<lparr>page_num = 1, page_text = ''UPS 1Z12345678\<newline>Gewicht 5,0'', is_scanned = False\<rparr>,
               \<lparr>page_num = 2, page_text = ''Transport 10,00 8,00'', is_scanned = False\<rparr>] = []"
  by code_simp

section \<open>Matchers read the subject from left to right\<close>

lemma reads_nil [simp]: "reads st [] st"
  by (simp add: reads_def)

lemma reads_trans: "reads st w st' \<Longrightarrow> reads st' v st'' \<Longrightarrow> reads st (w @ v) st''"
  by (auto simp: reads_def)

lemma reads_consumed: "reads st w st' \<Longrightarrow> consumed (rest st) (rest st') = w"
  by (simp add: reads_def consumed_def)

lemma reads_length: "reads st w st' \<Longrightarrow> length (rest st) = length w + length (rest st')"
  by (simp add: reads_def)

lemma reads_unique: "reads st w st' \<Longrightarrow> reads st v st' \<Longrightarrow> w = v"
  by (simp add: reads_def)

lemma reads_onlyI:
  "(\<And>st st'. st' \<in> set (m st) \<Longrightarrow> \<exists>w. reads st w st' \<and> list_all P w) \<Longrightarrow> reads_only P m"
  unfolding reads_only_def by blast

lemma reads_onlyD:
  "reads_only P m \<Longrightarrow> st' \<in> set (m st) \<Longrightarrow> \<exists>w. reads st w st' \<and> list_all P w"
  unfolding reads_only_def by blast

lemma reads_only_mono: "reads_only P m \<Longrightarrow> (\<And>c. P c \<Longrightarrow> Q c) \<Longrightarrow> reads_only Q m"
  unfolding reads_only_def list_all_iff by blast

lemma in_chr:
  "st' \<in> set (chr P st) \<longleftrightarrow> (\<exists>c cs. rest st = c # cs \<and> P c \<and> st' = (Some c, cs, groups st))"
  by (cases st) (auto simp: chr_def rest_def groups_def split: list.splits)

lemma in_seq: "st' \<in> set (seq m1 m2 st) \<longleftrightarrow> (\<exists>mid\<in>set (m1 st). st' \<in> set (m2 mid))"
  by (auto simp: seq_def)

lemma in_alt: "st' \<in> set (alt m1 m2 st) \<longleftrightarrow> st' \<in> set (m1 st) \<or> st' \<in> set (m2 st)"
  by (auto simp: alt_def)

lemma in_grp:
  "st' \<in> set (grp m st) \<longleftrightarrow>
   (\<exists>st1\<in>set (m st). st' = (before st1, rest st1, groups st1 @ [consumed (rest st) (rest st1)]))"
proof (cases st)
  case (fields b s g)
  have f: "(\<lambda>(b', s', g'). (b', s', g' @ [consumed s s'])) =
           (\<lambda>st1. (before st1, rest st1, groups st1 @ [consumed s (rest st1)]))"
    by (simp add: fun_eq_iff before_def rest_def groups_def)
  have "grp m (b, s, g) =
        map (\<lambda>st1. (before st1, rest st1, groups st1 @ [consumed s (rest st1)])) (m (b, s, g))"
    by (simp add: grp_def f)
  then show ?thesis by (simp add: fields rest_def image_iff)
qed

lemma in_wordb: "st' \<in> set (wordb st) \<longleftrightarrow> st' = st \<and> word_before (before st) \<noteq> word_after (rest st)"
  by (cases st) (auto simp: wordb_def rest_def before_def)

lemma in_bos: "st' \<in> set (bos st) \<longleftrightarrow> st' = st \<and> before st = None"
  by (cases st) (auto simp: bos_def before_def)

lemma in_eos: "st' \<in> set (eos st) \<longleftrightarrow> st' = st \<and> (rest st = [] \<or> rest st = [CHR 0x0A])"
  by (cases st) (auto simp: eos_def rest_def)

lemma reads_only_chr: "(\<And>c. Q c \<Longrightarrow> P c) \<Longrightarrow> reads_only P (chr Q)"
proof (rule reads_onlyI)
  fix st st' assume q: "\<And>c. Q c \<Longrightarrow> P c" and "st' \<in> set (chr Q st)"
  then obtain c cs where "rest st = c # cs" "Q c" "st' = (Some c, cs, groups st)"
    by (auto simp: in_chr)
  then have "reads st [c] st' \<and> list_all P [c]"
    using q by (simp add: reads_def rest_def before_def)
  then show "\<exists>w. reads st w st' \<and> list_all P w" ..
qed

lemma reads_only_wordb: "reads_only P wordb"
  by (rule reads_onlyI) (auto simp: in_wordb intro!: exI[of _ "[]"])

lemma reads_only_bos: "reads_only P bos"
  by (rule reads_onlyI) (auto simp: in_bos intro!: exI[of _ "[]"])

lemma reads_only_eos: "reads_only P eos"
  by (rule reads_onlyI) (auto simp: in_eos intro!: exI[of _ "[]"])

lemma reads_only_seq: "reads_only P m1 \<Longrightarrow> reads_only P m2 \<Longrightarrow> reads_only P (seq m1 m2)"
proof (rule reads_onlyI)
  fix st st' assume a: "reads_only P m1" "reads_only P m2" "st' \<in> set (seq m1 m2 st)"
  then obtain mid where "mid \<in> set (m1 st)" "st' \<in> set (m2 mid)" by (auto simp: in_seq)
  with a obtain w v where "reads st w mid" "list_all P w" "reads mid v st'" "list_all P v"
    by (meson reads_onlyD)
  then show "\<exists>w. reads st w st' \<and> list_all P w"
    by (intro exI[of _ "w @ v"]) (simp add: reads_trans)
qed

lemma reads_only_alt: "reads_only P m1 \<Longrightarrow> reads_only P m2 \<Longrightarrow> reads_only P (alt m1 m2)"
  by (auto simp: reads_only_def in_alt)

lemma reads_only_nothing: "reads_only P (\<lambda>st. [st])"
  by (rule reads_onlyI) (auto intro!: exI[of _ "[]"])

lemma reads_only_seqs: "(\<And>m. m \<in> set ms \<Longrightarrow> reads_only P m) \<Longrightarrow> reads_only P (seqs ms)"
  by (induction ms) (auto intro: reads_only_nothing reads_only_seq)

lemma reads_only_alts: "(\<And>m. m \<in> set ms \<Longrightarrow> reads_only P m) \<Longrightarrow> reads_only P (alts ms)"
proof (induction ms)
  case Nil then show ?case by (simp add: reads_only_def)
next
  case (Cons m ms) then show ?case by (simp add: reads_only_alt)
qed

lemma reads_only_lit: "list_all P s \<Longrightarrow> reads_only P (lit s)"
  unfolding lit_def by (rule reads_only_seqs) (auto simp: list_all_iff intro!: reads_only_chr)

lemma reads_only_lit_ci:
  "(\<And>c d. c \<in> set s \<Longrightarrow> lower_char d = lower_char c \<Longrightarrow> P d) \<Longrightarrow> reads_only P (lit_ci s)"
  unfolding lit_ci_def by (rule reads_only_seqs) (auto intro!: reads_only_chr)

lemma reads_only_exactly: "reads_only P m \<Longrightarrow> reads_only P (exactly n m)"
  by (induction n) (auto intro: reads_only_nothing reads_only_seq)

lemma reads_only_upto_greedy: "reads_only P m \<Longrightarrow> reads_only P (upto_greedy n m)"
proof (induction n)
  case 0 then show ?case by (simp add: reads_only_nothing)
next
  case (Suc n)
  have "upto_greedy (Suc n) m = alt (seq m (upto_greedy n m)) (\<lambda>st. [st])"
    by (simp add: alt_def seq_def)
  then show ?case
    using Suc by (simp only: reads_only_alt reads_only_seq reads_only_nothing)
qed

lemma reads_only_upto_lazy: "reads_only P m \<Longrightarrow> reads_only P (upto_lazy n m)"
proof (induction n)
  case 0 then show ?case by (simp add: reads_only_nothing)
next
  case (Suc n)
  have "upto_lazy (Suc n) m = alt (\<lambda>st. [st]) (seq m (upto_lazy n m))"
    by (simp add: alt_def seq_def)
  then show ?case
    using Suc by (simp only: reads_only_alt reads_only_seq reads_only_nothing)
qed

lemma reads_only_rep: "reads_only P m \<Longrightarrow> reads_only P (rep lo hi m)"
  by (simp add: rep_def reads_only_seq reads_only_exactly reads_only_upto_greedy)

lemma reads_only_opt: "reads_only P m \<Longrightarrow> reads_only P (opt m)"
  unfolding opt_def by (rule reads_only_upto_greedy)

lemma in_progress: "st' \<in> set (progress m st) \<longleftrightarrow> st' \<in> set (m st) \<and> length (rest st') < length (rest st)"
  by (cases st; cases st') (auto simp: progress_def rest_def)

lemma reads_only_progress: "reads_only P m \<Longrightarrow> reads_only P (progress m)"
  by (auto simp: reads_only_def in_progress)

lemma star_unfold: "star m st = upto_greedy (length (rest st)) (progress m) st"
  by (cases st) (simp add: star_def rest_def)

lemma reads_only_star: "reads_only P m \<Longrightarrow> reads_only P (star m)"
  using reads_only_upto_greedy[OF reads_only_progress, of P m]
  by (auto simp: reads_only_def star_unfold)

lemma reads_only_plus: "reads_only P m \<Longrightarrow> reads_only P (plus_greedy m)"
  by (simp add: plus_greedy_def reads_only_seq reads_only_star)

lemma plus_lazy_unfold:
  "plus_lazy m = seq m (\<lambda>st. upto_lazy (length (rest st)) (progress m) st)"
  by (auto simp: plus_lazy_def rest_def intro!: arg_cong[of _ _ "seq m"])

lemma reads_only_plus_lazy: "reads_only P m \<Longrightarrow> reads_only P (plus_lazy m)"
  unfolding plus_lazy_unfold
  using reads_only_upto_lazy[OF reads_only_progress, of P m]
  by (intro reads_only_seq) (auto simp: reads_only_def)

lemma reads_only_grp: "reads_only P m \<Longrightarrow> reads_only P (grp m)"
proof (rule reads_onlyI)
  fix st st' assume "reads_only P m" "st' \<in> set (grp m st)"
  then obtain st1 w where "st1 \<in> set (m st)" "reads st w st1" "list_all P w"
    and "st' = (before st1, rest st1, groups st1 @ [consumed (rest st) (rest st1)])"
    unfolding in_grp by (meson reads_onlyD)
  then have "reads st w st' \<and> list_all P w"
    by (simp add: reads_def rest_def before_def)
  then show "\<exists>w. reads st w st' \<and> list_all P w" ..
qed

lemma reads_only_opt_grp: "reads_only P m \<Longrightarrow> reads_only P (opt_grp m)"
  unfolding opt_grp_def
proof (intro reads_only_alt reads_only_grp)
  show "reads_only P (\<lambda>(b, s, g). [(b, s, g @ [[]])])"
    by (rule reads_onlyI) (auto simp: reads_def rest_def before_def intro!: exI[of _ "[]"])
qed

section \<open>Matchers that read at least one character, and the groups\<close>

lemma consumingD: "consuming m \<Longrightarrow> st' \<in> set (m st) \<Longrightarrow> length (rest st') < length (rest st)"
  unfolding consuming_def by blast

lemma consuming_chr: "consuming (chr P)"
  unfolding consuming_def by (auto simp: in_chr rest_def)

lemma reads_only_length: "reads_only P m \<Longrightarrow> st' \<in> set (m st) \<Longrightarrow> length (rest st') \<le> length (rest st)"
  by (auto dest!: reads_onlyD simp: reads_def)

lemma consuming_seq1: "consuming m1 \<Longrightarrow> reads_only P m2 \<Longrightarrow> consuming (seq m1 m2)"
  unfolding consuming_def in_seq
  by (metis reads_only_length order.strict_trans2 not_le order_less_le_trans)

lemma consuming_seq2: "reads_only P m1 \<Longrightarrow> consuming m2 \<Longrightarrow> consuming (seq m1 m2)"
  unfolding consuming_def in_seq
  by (metis reads_only_length order_less_le_trans)

lemma consuming_alt: "consuming m1 \<Longrightarrow> consuming m2 \<Longrightarrow> consuming (alt m1 m2)"
  unfolding consuming_def in_alt by blast

lemma consuming_grp: "consuming m \<Longrightarrow> consuming (grp m)"
proof -
  assume c: "consuming m"
  show ?thesis
    unfolding consuming_def
  proof (intro allI impI)
    fix st st' assume "st' \<in> set (grp m st)"
    then obtain st1 where "st1 \<in> set (m st)" "rest st' = rest st1"
      by (auto simp: in_grp rest_def)
    then show "length (rest st') < length (rest st)" using consumingD[OF c] by simp
  qed
qed

lemma keeps_groupsD: "keeps_groups m \<Longrightarrow> st' \<in> set (m st) \<Longrightarrow> groups st' = groups st"
  unfolding keeps_groups_def by blast

lemma keeps_groups_chr: "keeps_groups (chr P)"
  unfolding keeps_groups_def by (auto simp: in_chr groups_def)

lemma keeps_groups_wordb: "keeps_groups wordb"
  unfolding keeps_groups_def by (auto simp: in_wordb)

lemma keeps_groups_bos: "keeps_groups bos"
  unfolding keeps_groups_def by (auto simp: in_bos)

lemma keeps_groups_eos: "keeps_groups eos"
  unfolding keeps_groups_def by (auto simp: in_eos)

lemma keeps_groups_nothing: "keeps_groups (\<lambda>st. [st])"
  unfolding keeps_groups_def by simp

lemma keeps_groups_seq: "keeps_groups m1 \<Longrightarrow> keeps_groups m2 \<Longrightarrow> keeps_groups (seq m1 m2)"
  unfolding keeps_groups_def in_seq by metis

lemma keeps_groups_alt: "keeps_groups m1 \<Longrightarrow> keeps_groups m2 \<Longrightarrow> keeps_groups (alt m1 m2)"
  unfolding keeps_groups_def in_alt by blast

lemma keeps_groups_seqs: "(\<And>m. m \<in> set ms \<Longrightarrow> keeps_groups m) \<Longrightarrow> keeps_groups (seqs ms)"
  by (induction ms) (simp_all add: keeps_groups_nothing keeps_groups_seq)

lemma keeps_groups_alts: "(\<And>m. m \<in> set ms \<Longrightarrow> keeps_groups m) \<Longrightarrow> keeps_groups (alts ms)"
proof (induction ms)
  case Nil then show ?case by (simp add: keeps_groups_def)
next
  case (Cons m ms) then show ?case by (simp add: keeps_groups_alt)
qed

lemma keeps_groups_lit: "keeps_groups (lit s)"
  unfolding lit_def by (rule keeps_groups_seqs) (auto simp: keeps_groups_chr)

lemma keeps_groups_lit_ci: "keeps_groups (lit_ci s)"
  unfolding lit_ci_def by (rule keeps_groups_seqs) (auto simp: keeps_groups_chr)

lemma keeps_groups_exactly: "keeps_groups m \<Longrightarrow> keeps_groups (exactly n m)"
  by (induction n) (simp_all add: keeps_groups_nothing keeps_groups_seq)

lemma keeps_groups_upto_greedy: "keeps_groups m \<Longrightarrow> keeps_groups (upto_greedy n m)"
proof (induction n)
  case 0 then show ?case by (simp add: keeps_groups_nothing)
next
  case (Suc n)
  have "upto_greedy (Suc n) m = alt (seq m (upto_greedy n m)) (\<lambda>st. [st])"
    by (simp add: alt_def seq_def)
  then show ?case
    using Suc by (simp only: keeps_groups_alt keeps_groups_seq keeps_groups_nothing)
qed

lemma keeps_groups_upto_lazy: "keeps_groups m \<Longrightarrow> keeps_groups (upto_lazy n m)"
proof (induction n)
  case 0 then show ?case by (simp add: keeps_groups_nothing)
next
  case (Suc n)
  have "upto_lazy (Suc n) m = alt (\<lambda>st. [st]) (seq m (upto_lazy n m))"
    by (simp add: alt_def seq_def)
  then show ?case
    using Suc by (simp only: keeps_groups_alt keeps_groups_seq keeps_groups_nothing)
qed

lemma keeps_groups_rep: "keeps_groups m \<Longrightarrow> keeps_groups (rep lo hi m)"
  unfolding rep_def by (intro keeps_groups_seq keeps_groups_exactly keeps_groups_upto_greedy)

lemma keeps_groups_opt: "keeps_groups m \<Longrightarrow> keeps_groups (opt m)"
  unfolding opt_def by (rule keeps_groups_upto_greedy)

lemma keeps_groups_progress: "keeps_groups m \<Longrightarrow> keeps_groups (progress m)"
  unfolding keeps_groups_def in_progress by blast

lemma keeps_groups_star: "keeps_groups m \<Longrightarrow> keeps_groups (star m)"
  using keeps_groups_upto_greedy[OF keeps_groups_progress, of m]
  unfolding keeps_groups_def star_unfold by blast

lemma keeps_groups_plus: "keeps_groups m \<Longrightarrow> keeps_groups (plus_greedy m)"
  unfolding plus_greedy_def by (intro keeps_groups_seq keeps_groups_star)

lemma keeps_groups_plus_lazy: "keeps_groups m \<Longrightarrow> keeps_groups (plus_lazy m)"
  unfolding plus_lazy_unfold
  using keeps_groups_upto_lazy[OF keeps_groups_progress, of m]
  by (intro keeps_groups_seq) (auto simp: keeps_groups_def)

section \<open>What a search returns\<close>

lemma match_at_Some:
  "match_at m b s = Some (w, g, b', s') \<Longrightarrow> (b', s', g) \<in> set (m (b, s, [])) \<and> w = consumed s s'"
  by (auto simp: match_at_def split: list.splits)

lemma search_from_Some:
  "search_from m b s = Some (w, g, b', s') \<Longrightarrow>
   \<exists>b0 s0. (b', s', g) \<in> set (m (b0, s0, [])) \<and> w = consumed s0 s'"
proof (induction s arbitrary: b)
  case Nil then show ?case by (auto dest: match_at_Some)
next
  case (Cons c cs) then show ?case
    by (auto split: option.splits dest: match_at_Some)
qed

lemma matches_from_elem:
  "(w, g, b', s') \<in> set (matches_from m b s) \<Longrightarrow>
   \<exists>b0 s0. (b', s', g) \<in> set (m (b0, s0, [])) \<and> w = consumed s0 s'"
proof (induction "length s" arbitrary: b s rule: less_induct)
  case less
  note mem = less.prems[unfolded matches_from.simps[of m b s]]
  show ?case
  proof (cases "match_at m b s")
    case None
    with mem obtain c cs where "s = c # cs" "(w, g, b', s') \<in> set (matches_from m (Some c) cs)"
      by (auto split: list.splits)
    then show ?thesis using less.hyps[of cs "Some c"] by simp
  next
    case (Some r)
    obtain w1 g1 b1 s1 where r: "r = (w1, g1, b1, s1)" by (cases r) auto
    have hd: "(b1, s1, g1) \<in> set (m (b, s, [])) \<and> w1 = consumed s s1"
      using Some r by (auto dest: match_at_Some)
    show ?thesis
    proof (cases "length s1 < length s")
      case True
      with mem Some r have "(w, g, b', s') = (w1, g1, b1, s1) \<or>
          (w, g, b', s') \<in> set (matches_from m b1 s1)" by simp
      then show ?thesis using hd less.hyps[OF True] by auto
    next
      case False
      with mem Some r have "(w, g, b', s') = (w1, g1, b1, s1) \<or>
          (\<exists>c cs. s = c # cs \<and> (w, g, b', s') \<in> set (matches_from m (Some c) cs))"
        by (auto split: list.splits)
      then show ?thesis using hd less.hyps by fastforce
    qed
  qed
qed

section \<open>Cost items\<close>

lemma foldl_cost_step_Inl: "foldl (cost_step pr ci) (Inl e) ls = Inl e"
  by (induction ls) (simp_all add: cost_step_def)

lemma foldl_cost_step_inv:
  assumes "foldl (cost_step pr ci) (Inr (items, seen)) ls = Inr (items', seen')"
    and "seen = sig ` set items" and "distinct (map sig items)"
  shows "seen' = sig ` set items' \<and> distinct (map sig items') \<and> set items \<subseteq> set items' \<and>
         (\<forall>raw\<in>set ls. \<forall>it. row_item pr ci raw = Inr (Some it) \<longrightarrow> sig it \<in> seen')"
  using assms
proof (induction ls arbitrary: items seen)
  case Nil
  then show ?case by auto
next
  case (Cons raw ls)
  show ?case
  proof (cases "row_item pr ci raw")
    case (Inl e)
    then have "cost_step pr ci (Inr (items, seen)) raw = Inl e"
      by (simp add: cost_step_def)
    with Cons.prems(1) show ?thesis
      by (simp add: foldl_cost_step_Inl)
  next
    case (Inr r)
    show ?thesis
    proof (cases r)
      case None
      with Inr have "cost_step pr ci (Inr (items, seen)) raw = Inr (items, seen)"
        by (simp add: cost_step_def)
      with Cons.prems have "foldl (cost_step pr ci) (Inr (items, seen)) ls = Inr (items', seen')"
        by simp
      from Cons.IH[OF this Cons.prems(2,3)] Inr None show ?thesis by auto
    next
      case (Some item)
      show ?thesis
      proof (cases "sig item \<in> seen")
        case True
        with Inr Some have "cost_step pr ci (Inr (items, seen)) raw = Inr (items, seen)"
          by (simp add: cost_step_def)
        with Cons.prems
        have f: "foldl (cost_step pr ci) (Inr (items, seen)) ls = Inr (items', seen')"
          by simp
        have sub: "seen \<subseteq> seen'"
          using Cons.IH[OF f Cons.prems(2,3)] Cons.prems(2) by auto
        from Cons.IH[OF f Cons.prems(2,3)] Inr Some True sub show ?thesis by auto
      next
        case False
        with Inr Some have "cost_step pr ci (Inr (items, seen)) raw
                 = Inr (items @ [item], insert (sig item) seen)"
          by (simp add: cost_step_def)
        with Cons.prems
        have f: "foldl (cost_step pr ci) (Inr (items @ [item], insert (sig item) seen)) ls
                 = Inr (items', seen')"
          by simp
        have a: "insert (sig item) seen = sig ` set (items @ [item])"
          using Cons.prems(2) by auto
        have b: "distinct (map sig (items @ [item]))"
          using Cons.prems(2,3) False by auto
        from Cons.IH[OF f a b] Inr Some show ?thesis by auto
      qed
    qed
  qed
qed

text \<open>
  C8. Within one block no two returned cost items share the triple of category, value
  and currency, and the triple of every matched row is the triple of a returned item:
  rows with the same triple collapse to one item, rows that differ in any component
  of it, the currency included, are all kept.
\<close>

theorem cost_items_unique_signature:
  assumes "CostExtractor_extract pr t = Inr items"
  shows "distinct (map sig items) \<and>
         (\<forall>raw\<in>set (split_nl t). \<forall>it. row_item pr (detect_invoice_currency t) raw = Inr (Some it)
            \<longrightarrow> sig it \<in> sig ` set items)"
proof -
  from assms obtain seen where
    "foldl (cost_step pr (detect_invoice_currency t)) (Inr ([], {})) (split_nl t) = Inr (items, seen)"
    by (auto simp: CostExtractor_extract_def split: sum.splits)
  from foldl_cost_step_inv[OF this] show ?thesis by auto
qed

section \<open>Validator\<close>

lemma strip_blank: "strip '' '' = []"
  by code_simp

lemma upper_Nil: "upper [] = []"
  by (simp add: upper_def)

text \<open>
  C9 fails on the code. A country that consists of whitespace only passes the emptiness
  test of \<open>_clean_country\<close>, which is made before the value is stripped, and comes
  back as the empty string (the country table knows no empty code or name); the second
  pass then turns the empty string into \<open>None\<close>. So validating twice differs from
  validating once.
\<close>

theorem validate_record_blank_country:
  assumes "origin_country r = Some '' ''"
    and "\<not> alpha2_known ext []" and "country_lookup ext [] = None"
  shows "origin_country (validate_record ext r) = Some [] \<and>
         origin_country (validate_record ext (validate_record ext r)) = None \<and>
         validate_record ext (validate_record ext r) \<noteq> validate_record ext r"
proof -
  have 1: "origin_country (validate_record ext r) = Some []"
    using assms by (simp add: validate_record_def clean_country_def strip_blank upper_Nil)
  have 2: "origin_country (validate_record ext (validate_record ext r)) = None"
    using 1 by (simp add: validate_record_def clean_country_def)
  from 1 2 show ?thesis by auto
qed

theorem validate_record_blank_country_witness:
  "origin_country (validate_record
      \<lparr>strptime_iso = (\<lambda>s. None), dateutil_parse = (\<lambda>s. None),
       alpha2_known = (\<lambda>c. c \<in> set [''DE'', ''CH'', ''HK'']),
       country_lookup = map_of [(''GERMANY'', ''DE''), (''SWITZERLAND'', ''CH'')]\<rparr>
      (block_result ''1Z12345678'' (Some 1) None None
         \<lparr>loc_origin_country = Some '' '', loc_origin_city = None, loc_origin_zipcode = None,
          loc_destination_country = None, loc_destination_city = None,
          loc_destination_zipcode = None\<rparr>
         \<lparr>gross_weight = None, chargeable_weight = None, loading_meter = None,
          cubic_meter = None, pallet_amount = None\<rparr> [])) = Some []"
proof -
  let ?ext = "\<lparr>strptime_iso = (\<lambda>s. None), dateutil_parse = (\<lambda>s. None),
       alpha2_known = (\<lambda>c. c \<in> set [''DE'', ''CH'', ''HK'']),
       country_lookup = map_of [(''GERMANY'', ''DE''), (''SWITZERLAND'', ''CH'')]\<rparr>"
  let ?r = "block_result ''1Z12345678'' (Some 1) None None
         \<lparr>loc_origin_country = Some '' '', loc_origin_city = None, loc_origin_zipcode = None,
          loc_destination_country = None, loc_destination_city = None,
          loc_destination_zipcode = None\<rparr>
         \<lparr>gross_weight = None, chargeable_weight = None, loading_meter = None,
          cubic_meter = None, pallet_amount = None\<rparr> []"
  have a: "origin_country ?r = Some '' ''" by (simp add: block_result_def)
  have b: "\<not> alpha2_known ?ext []" by simp
  have c: "country_lookup ?ext [] = None" by simp
  from validate_record_blank_country[OF a b c] show ?thesis by simp
qed

theorem cost_items_unique_signature_witness:
  "CostExtractor_extract (\<lambda>k d. if contains k d then 100 else 0)
     ''Transport EUR 1,00 2,00\<newline>Transport EUR 1,00 2,00\<newline>Transport CHF 1,00 2,00''
   = Inr [\<lparr>extracted_category = Some ''Freight'', total_cost_in_shipment_currency = Some 2,
           currency = Some ''EUR'', mention = Some ''Transport EUR 1,00 2,00''\<rparr>,
          \<lparr>extracted_category = Some ''Freight'', total_cost_in_shipment_currency = Some 2,
           currency = Some ''CHF'', mention = Some ''Transport CHF 1,00 2,00''\<rparr>]
   \<and> distinct (map sig
         [\<lparr>extracted_category = Some ''Freight'', total_cost_in_shipment_currency = Some 2,
           currency = Some ''EUR'', mention = Some ''Transport EUR 1,00 2,00''\<rparr>,
          \<lparr>extracted_category = Some ''Freight'', total_cost_in_shipment_currency = Some 2,
           currency = Some ''CHF'', mention = Some ''Transport CHF 1,00 2,00''\<rparr>])"
proof -
  have e: "CostExtractor_extract (\<lambda>k d. if contains k d then 100 else 0)
     ''Transport EUR 1,00 2,00\<newline>Transport EUR 1,00 2,00\<newline>Transport CHF 1,00 2,00''
   = Inr [\<lparr>extracted_category = Some ''Freight'', total_cost_in_shipment_currency = Some 2,
           currency = Some ''EUR'', mention = Some ''Transport EUR 1,00 2,00''\<rparr>,
          \<lparr>extracted_category = Some ''Freight'', total_cost_in_shipment_currency = Some 2,
           currency = Some ''CHF'', mention = Some ''Transport CHF 1,00 2,00''\<rparr>]"
    by code_simp
  from cost_items_unique_signature[OF e] e show ?thesis by blast
qed

section \<open>Properties of the text a matcher reads\<close>

lemma reads_suchD: "reads_such Q m \<Longrightarrow> st' \<in> set (m st) \<Longrightarrow> \<exists>w. reads st w st' \<and> Q w"
  unfolding reads_such_def by blast

lemma reads_only_such: "reads_only P m \<Longrightarrow> reads_such (list_all P) m"
  unfolding reads_only_def reads_such_def by blast

lemma reads_such_mono: "reads_such Q m \<Longrightarrow> (\<And>w. Q w \<Longrightarrow> Q' w) \<Longrightarrow> reads_such Q' m"
  unfolding reads_such_def by blast

lemma reads_such_seq:
  assumes "reads_such Q1 m1" "reads_such Q2 m2" "\<And>u v. Q1 u \<Longrightarrow> Q2 v \<Longrightarrow> Q (u @ v)"
  shows "reads_such Q (seq m1 m2)"
  unfolding reads_such_def
proof (intro allI impI)
  fix st st' assume "st' \<in> set (seq m1 m2 st)"
  then obtain mid where "mid \<in> set (m1 st)" "st' \<in> set (m2 mid)" by (auto simp: in_seq)
  with assms(1,2) obtain u v where "reads st u mid" "Q1 u" "reads mid v st'" "Q2 v"
    by (meson reads_suchD)
  then show "\<exists>w. reads st w st' \<and> Q w"
    using assms(3) by (intro exI[of _ "u @ v"]) (simp add: reads_trans)
qed

lemma reads_such_nothing: "Q [] \<Longrightarrow> reads_such Q (\<lambda>st. [st])"
  unfolding reads_such_def by (auto intro!: exI[of _ "[]"])

lemma reads_such_alt: "reads_such Q m1 \<Longrightarrow> reads_such Q m2 \<Longrightarrow> reads_such Q (alt m1 m2)"
  unfolding reads_such_def in_alt by blast

lemma reads_such_upto_greedy:
  assumes "reads_such Q m" "\<And>u v. Q u \<Longrightarrow> Q v \<Longrightarrow> Q (u @ v)"
  shows "reads_such (\<lambda>w. w = [] \<or> Q w) (upto_greedy n m)"
proof (induction n)
  case 0 then show ?case by (simp add: reads_such_nothing)
next
  case (Suc n)
  have e: "upto_greedy (Suc n) m = alt (seq m (upto_greedy n m)) (\<lambda>st. [st])"
    by (simp add: alt_def seq_def)
  have "reads_such (\<lambda>w. w = [] \<or> Q w) (seq m (upto_greedy n m))"
    by (rule reads_such_seq[OF assms(1) Suc]) (auto simp: assms(2))
  then show ?case unfolding e by (intro reads_such_alt reads_such_nothing) simp_all
qed

lemma reads_such_progress: "reads_such Q m \<Longrightarrow> reads_such Q (progress m)"
  unfolding reads_such_def in_progress by blast

lemma reads_such_plus:
  assumes "reads_such Q m" "\<And>u v. Q u \<Longrightarrow> Q v \<Longrightarrow> Q (u @ v)"
  shows "reads_such Q (plus_greedy m)"
proof -
  have "reads_such (\<lambda>w. w = [] \<or> Q w) (star m)"
    using reads_such_upto_greedy[OF reads_such_progress[OF assms(1)] assms(2)]
    unfolding reads_such_def star_unfold by blast
  then show ?thesis
    unfolding plus_greedy_def by (rule reads_such_seq[OF assms(1)]) (auto simp: assms(2))
qed

lemma ends_with_space_append: "ends_with_space v \<Longrightarrow> ends_with_space (u @ v)"
  by (simp add: ends_with_space_def)

lemma reads_such_spaces: "reads_such ends_with_space (plus_greedy (chr is_space))"
proof (rule reads_such_plus)
  show "reads_such ends_with_space (chr is_space)"
    unfolding reads_such_def
  proof (intro allI impI)
    fix st st' assume "st' \<in> set (chr is_space st)"
    then obtain c cs where "rest st = c # cs" "is_space c" "st' = (Some c, cs, groups st)"
      by (auto simp: in_chr)
    then have "reads st [c] st' \<and> ends_with_space [c]"
      by (simp add: reads_def rest_def before_def ends_with_space_def)
    then show "\<exists>w. reads st w st' \<and> ends_with_space w" ..
  qed
qed (rule ends_with_space_append)

section \<open>Stripping and splitting\<close>

lemma lstrip_hd: "lstrip s \<noteq> [] \<Longrightarrow> \<not> is_space (hd (lstrip s))"
  unfolding lstrip_def by (rule hd_dropWhile)

lemma rstrip_last: "rstrip s \<noteq> [] \<Longrightarrow> \<not> is_space (last (rstrip s))"
  unfolding rstrip_def by (simp add: last_rev hd_dropWhile)

lemma strip_last: "strip s \<noteq> [] \<Longrightarrow> \<not> is_space (last (strip s))"
  unfolding strip_def by (rule rstrip_last)

lemma rstrip_decomp: "s = rstrip s @ rev (takeWhile is_space (rev s))"
proof -
  have "rstrip s @ rev (takeWhile is_space (rev s))
        = rev (takeWhile is_space (rev s) @ dropWhile is_space (rev s))"
    unfolding rstrip_def by (simp only: rev_append)
  also have "\<dots> = s" by (simp only: takeWhile_dropWhile_id rev_rev_ident)
  finally show ?thesis by simp
qed

lemma rstrip_hd: "rstrip s \<noteq> [] \<Longrightarrow> hd (rstrip s) = hd s"
  by (subst (2) rstrip_decomp) simp

lemma strip_hd: "strip s \<noteq> [] \<Longrightarrow> \<not> is_space (hd (strip s))"
  unfolding strip_def using rstrip_hd[of "lstrip s"] lstrip_hd[of s]
  by (cases "lstrip s = []") (auto simp: rstrip_def)

lemma rstrip_id: "s \<noteq> [] \<Longrightarrow> \<not> is_space (last s) \<Longrightarrow> rstrip s = s"
  by (cases s rule: rev_cases) (simp_all add: rstrip_def)

lemma lstrip_id: "s \<noteq> [] \<Longrightarrow> \<not> is_space (hd s) \<Longrightarrow> lstrip s = s"
  by (cases s) (simp_all add: lstrip_def)

lemma strip_id: "s \<noteq> [] \<Longrightarrow> \<not> is_space (hd s) \<Longrightarrow> \<not> is_space (last s) \<Longrightarrow> strip s = s"
  by (simp add: strip_def lstrip_id rstrip_id)

lemma split_ws_acc_word:
  "\<forall>c\<in>set tok. \<not> is_space c \<Longrightarrow>
   split_ws_acc acc tok = (if acc @ tok = [] then [] else [acc @ tok])"
  by (induction tok arbitrary: acc) auto

lemma split_ws_acc_last:
  assumes "is_space c" "tok \<noteq> []" "\<forall>d\<in>set tok. \<not> is_space d"
  shows "split_ws_acc acc (xs @ c # tok) \<noteq> [] \<and> last (split_ws_acc acc (xs @ c # tok)) = tok"
proof (induction xs arbitrary: acc)
  case Nil
  show ?case using assms by (simp add: split_ws_acc_word)
next
  case (Cons x xs)
  show ?case using Cons[of "[]"] Cons[of "acc @ [x]"] by simp
qed

lemma split_ws_last:
  assumes "ends_with_space u" "tok \<noteq> []" "\<forall>d\<in>set tok. \<not> is_space d"
  shows "split_ws (u @ tok) \<noteq> [] \<and> last (split_ws (u @ tok)) = tok"
proof -
  from assms(1) obtain xs c where "u = xs @ [c]" "is_space c"
    by (cases u rule: rev_cases) (auto simp: ends_with_space_def)
  then show ?thesis
    using split_ws_acc_last[OF _ assms(2,3), of c "[]" xs] by (simp add: split_ws_def)
qed

section \<open>Cost rows\<close>

lemmas reads_only_intros =
  reads_only_seq reads_only_alt reads_only_nothing reads_only_rep reads_only_star
  reads_only_plus reads_only_plus_lazy reads_only_exactly reads_only_opt reads_only_grp
  reads_only_opt_grp reads_only_wordb reads_only_bos reads_only_eos reads_only_upto_greedy

lemmas keeps_groups_intros =
  keeps_groups_seq keeps_groups_alt keeps_groups_nothing keeps_groups_rep keeps_groups_star
  keeps_groups_plus keeps_groups_plus_lazy keeps_groups_exactly keeps_groups_opt
  keeps_groups_wordb keeps_groups_bos keeps_groups_eos keeps_groups_chr keeps_groups_lit
  keeps_groups_lit_ci keeps_groups_upto_greedy

lemma reads_only_any: "reads_only (\<lambda>c. True) (chr P)"
  by (rule reads_only_chr) simp

lemma reads_only_any_lit: "reads_only (\<lambda>c. True) (lit s)"
  by (rule reads_only_lit) (simp add: list_all_iff)

lemma reads_only_any_lit_ci: "reads_only (\<lambda>c. True) (lit_ci s)"
  by (rule reads_only_lit_ci) simp

lemma consuming_rep:
  assumes "0 < lo" "consuming m" "reads_only P m"
  shows "consuming (rep lo hi m)"
proof -
  from assms(1) obtain k where lo: "lo = Suc k" by (cases lo) auto
  have "consuming (exactly lo m)"
    unfolding lo exactly.simps
    by (rule consuming_seq1[OF assms(2) reads_only_exactly[OF assms(3)]])
  then show ?thesis
    unfolding rep_def by (rule consuming_seq1[OF _ reads_only_upto_greedy[OF assms(3)]])
qed

lemma number_char_not_space: "number_char c \<Longrightarrow> \<not> is_space c"
  by (cases c) (auto simp: number_char_def)

lemma german_number_reads: "reads_only number_char german_number"
  unfolding german_number_def seqs.simps
  by (intro reads_only_intros reads_only_chr reads_only_lit) (simp_all add: number_char_def)

lemma german_number_consuming: "consuming german_number"
  unfolding german_number_def seqs.simps
proof (rule consuming_seq1[where P = "\<lambda>c. True"])
  show "consuming (rep 1 3 (chr is_digit))"
    by (rule consuming_rep[OF _ consuming_chr reads_only_any]) simp
qed (intro reads_only_intros reads_only_any reads_only_any_lit)

lemma german_number_keeps: "keeps_groups german_number"
  unfolding german_number_def seqs.simps by (intro keeps_groups_intros)

lemma numcols_columns_reads: "reads_such ends_with_space numcols_columns"
  unfolding numcols_columns_def seqs.simps
proof (rule reads_such_plus)
  show "reads_such ends_with_space (seq german_number (seq (plus_greedy (chr is_space)) (\<lambda>st. [st])))"
  proof (rule reads_such_seq[OF reads_only_such[OF german_number_reads]])
    show "reads_such ends_with_space (seq (plus_greedy (chr is_space)) (\<lambda>st. [st]))"
      by (rule reads_such_seq[OF reads_such_spaces reads_such_nothing[of "\<lambda>w. w = []"]]) simp_all
  qed (rule ends_with_space_append)
qed (rule ends_with_space_append)

lemma numcols_columns_keeps: "keeps_groups numcols_columns"
  unfolding numcols_columns_def seqs.simps
  by (intro keeps_groups_intros german_number_keeps)

lemma in_seqE:
  assumes "st' \<in> set (seq m1 m2 st)"
  obtains mid where "mid \<in> set (m1 st)" "st' \<in> set (m2 mid)"
  using assms by (auto simp: in_seq)

lemma ROW_RE_unfold:
  "ROW_RE = seq bos (seq (grp (plus_lazy (chr desc_char))) (seq (plus_greedy (chr is_space))
              (seq (grp (seq numcols_columns (seq german_number (\<lambda>st. [st])))) (seq eos (\<lambda>st. [st])))))"
  by (simp add: ROW_RE_def numcols_columns_def)

lemma ROW_RE_match:
  assumes "re_match ROW_RE line = Some (w, g, b, s)"
  shows "\<exists>pre u tok. line = pre @ u @ tok @ s \<and> ends_with_space u \<and> g ! 1 = u @ tok \<and>
           (s = [] \<or> s = [CHR 0x0A]) \<and> tok \<noteq> [] \<and> list_all number_char tok \<and>
           (\<exists>z y. y \<in> set (german_number z) \<and> rest z = tok @ s \<and> rest y = s)"
proof -
  from assms have "(b, s, g) \<in> set (ROW_RE (None, line, []))"
    by (auto simp: re_match_def dest: match_at_Some)
  then obtain st1 where st1: "st1 \<in> set (bos (None, line, []))"
    and r1: "(b, s, g) \<in> set (seq (grp (plus_lazy (chr desc_char))) (seq (plus_greedy (chr is_space))
              (seq (grp (seq numcols_columns (seq german_number (\<lambda>st. [st])))) (seq eos (\<lambda>st. [st])))) st1)"
    unfolding ROW_RE_unfold by (rule in_seqE)
  from st1 have st1': "st1 = (None, line, [])" by (simp add: in_bos)
  from r1 obtain st2 where st2: "st2 \<in> set (grp (plus_lazy (chr desc_char)) (None, line, []))"
    and r2: "(b, s, g) \<in> set (seq (plus_greedy (chr is_space))
              (seq (grp (seq numcols_columns (seq german_number (\<lambda>st. [st])))) (seq eos (\<lambda>st. [st]))) st2)"
    unfolding st1' by (rule in_seqE)
  from r2 obtain st3 where st3: "st3 \<in> set (plus_greedy (chr is_space) st2)"
    and r3: "(b, s, g) \<in> set (seq (grp (seq numcols_columns (seq german_number (\<lambda>st. [st]))))
               (seq eos (\<lambda>st. [st])) st3)"
    by (rule in_seqE)
  from r3 obtain st4 where
    st4: "st4 \<in> set (grp (seq numcols_columns (seq german_number (\<lambda>st. [st]))) st3)"
    and r4: "(b, s, g) \<in> set (seq eos (\<lambda>st. [st]) st4)"
    by (rule in_seqE)
  from r4 obtain st5 where "st5 \<in> set (eos st4)" "(b, s, g) \<in> set [st5]"
    by (rule in_seqE)
  then have fin: "rest st4 = [] \<or> rest st4 = [CHR 0x0A]" "(b, s, g) = st4"
    by (simp_all add: in_eos)
  from st2 obtain x where x: "x \<in> set (plus_lazy (chr desc_char) (None, line, []))"
    and st2': "st2 = (before x, rest x, groups x @ [consumed line (rest x)])"
    unfolding in_grp by (auto simp: rest_def)
  have gx: "groups x = []"
    using keeps_groupsD[OF keeps_groups_plus_lazy[OF keeps_groups_chr] x] by (simp add: groups_def)
  obtain w1 where w1: "reads (None, line, []) w1 x"
    using reads_onlyD[OF reads_only_plus_lazy[OF reads_only_any] x] by blast
  have g3: "groups st3 = groups st2"
    by (rule keeps_groupsD[OF keeps_groups_plus[OF keeps_groups_chr] st3])
  obtain w2 where w2: "reads st2 w2 st3"
    using reads_onlyD[OF reads_only_plus[OF reads_only_any] st3] by blast
  from st4 obtain y where y: "y \<in> set (seq numcols_columns (seq german_number (\<lambda>st. [st])) st3)"
    and st4': "st4 = (before y, rest y, groups y @ [consumed (rest st3) (rest y)])"
    unfolding in_grp by blast
  from y obtain z where z: "z \<in> set (numcols_columns st3)"
    and "y \<in> set (seq german_number (\<lambda>st. [st]) z)"
    by (rule in_seqE)
  then have yz: "y \<in> set (german_number z)"
    by (simp add: seq_def)
  have gy: "groups y = groups st3"
    using keeps_groupsD[OF german_number_keeps yz] keeps_groupsD[OF numcols_columns_keeps z] by simp
  obtain u where u: "reads st3 u z" "ends_with_space u"
    using reads_suchD[OF numcols_columns_reads z] by blast
  obtain tok where tok: "reads z tok y" "list_all number_char tok"
    using reads_onlyD[OF german_number_reads yz] by blast
  have "tok \<noteq> []"
    using consumingD[OF german_number_consuming yz] reads_length[OF tok(1)] by auto
  have s: "s = rest y" using fin(2) st4' by (simp add: rest_def)
  have g: "g = [consumed line (rest x), consumed (rest st3) (rest y)]"
    using fin(2) st4' gy g3 st2' gx by (simp add: groups_def)
  have "consumed (rest st3) (rest y) = u @ tok"
    by (rule reads_consumed[OF reads_trans[OF u(1) tok(1)]])
  with g have g1: "g ! 1 = u @ tok" by simp
  have "rest st2 = rest x" using st2' by (simp add: rest_def)
  then have "line = w1 @ w2 @ u @ tok @ s"
    using w1 w2 u(1) tok(1) s by (simp add: reads_def rest_def)
  then have "line = (w1 @ w2) @ u @ tok @ s" by simp
  moreover have "rest z = tok @ s" using tok(1) s by (simp add: reads_def)
  moreover have "s = [] \<or> s = [CHR 0x0A]" using fin st4' s by (simp add: rest_def)
  ultimately show ?thesis
    using u(2) g1 \<open>tok \<noteq> []\<close> tok(2) yz s
    by (intro exI[of _ "w1 @ w2"] exI[of _ u] exI[of _ tok] conjI exI[of _ z] exI[of _ y]) simp_all
qed

lemma row_item_Some:
  assumes "row_item pr ci raw = Inr (Some it)"
  obtains w g b s where "strip raw \<noteq> []" "re_match ROW_RE (strip raw) = Some (w, g, b, s)"
    "split_ws (g ! 1) \<noteq> []"
    "total_cost_in_shipment_currency it = CostExtractor_to_float (last (split_ws (g ! 1)))"
    "currency it = (case detect_currency_inline (strip raw) of
                      Some c \<Rightarrow> if c \<noteq> [] then Some c else ci | None \<Rightarrow> ci)"
    "mention it = Some (strip raw)"
    "extracted_category it = normalize_category pr (strip (g ! 0))"
  using assms unfolding row_item_def Let_def
  by (auto split: if_splits option.splits)

lemma row_rightmost:
  assumes "row_item pr ci raw = Inr (Some it)"
  shows "\<exists>pre tok. strip raw = pre @ tok \<and> ends_with_space pre \<and> tok \<noteq> [] \<and>
           list_all number_char tok \<and>
           (\<exists>z y. y \<in> set (german_number z) \<and> rest z = tok \<and> rest y = []) \<and>
           total_cost_in_shipment_currency it = CostExtractor_to_float tok"
proof -
  from assms obtain w g b s where ne: "strip raw \<noteq> []"
    and m: "re_match ROW_RE (strip raw) = Some (w, g, b, s)"
    and tot: "total_cost_in_shipment_currency it = CostExtractor_to_float (last (split_ws (g ! 1)))"
    by (rule row_item_Some)
  from ROW_RE_match[OF m] obtain pre u tok z y where
    l: "strip raw = pre @ u @ tok @ s" and u: "ends_with_space u" and g1: "g ! 1 = u @ tok"
    and s: "s = [] \<or> s = [CHR 0x0A]" and tok: "tok \<noteq> []" "list_all number_char tok"
    and zy: "y \<in> set (german_number z)" "rest z = tok @ s" "rest y = s"
    by blast
  have "s = []"
  proof (rule ccontr)
    assume "s \<noteq> []"
    with s l have "last (strip raw) = CHR 0x0A" by simp
    then show False using strip_last[OF ne] by simp
  qed
  have nosp: "\<forall>d\<in>set tok. \<not> is_space d"
    using tok(2) number_char_not_space by (auto simp: list_all_iff)
  have "last (split_ws (g ! 1)) = tok"
    unfolding g1 using split_ws_last[OF u tok(1) nosp] by simp
  moreover have "strip raw = (pre @ u) @ tok" using l \<open>s = []\<close> by simp
  moreover have "ends_with_space (pre @ u)" by (rule ends_with_space_append[OF u])
  ultimately show ?thesis
    using tok zy tot \<open>s = []\<close>
    by (intro exI[of _ "pre @ u"] exI[of _ tok] exI[of _ z] exI[of _ y] conjI) simp_all
qed

lemma row_transport:
  "\<exists>it. row_item pr ci ''Transport 1.234,56 617,28'' = Inr (Some it) \<and>
        total_cost_in_shipment_currency it = Some (61728 / 100)"
proof -
  have 1: "strip ''Transport 1.234,56 617,28'' = ''Transport 1.234,56 617,28''" by code_simp
  have 2: "\<not> list_ex (\<lambda>k. contains k (lower ''Transport 1.234,56 617,28'')) SKIP_KEYWORDS"
    by code_simp
  have 3: "re_match ROW_RE ''Transport 1.234,56 617,28''
           = Some (''Transport 1.234,56 617,28'', [''Transport'', ''1.234,56 617,28''], Some CHR ''8'', [])"
    by code_simp
  have 4: "split_ws ''1.234,56 617,28'' = [''1.234,56'', ''617,28'']" by code_simp
  have 5: "CostExtractor_to_float ''617,28'' = Some (61728 / 100)" by code_simp
  show ?thesis
    by (simp add: row_item_def Let_def 1 2 3 4 5)
qed

section \<open>Currencies\<close>

lemma ascii_letter_not_space: "is_ascii_letter c \<Longrightarrow> \<not> is_space c"
  by (cases c) auto

lemma upper_char_letter: "is_ascii_letter c \<Longrightarrow> \<exists>d. upper_char c = [d] \<and> is_ascii_letter d"
  by (cases c) auto

lemma upper_letters: "list_all is_ascii_letter w \<Longrightarrow> list_all is_ascii_letter (upper w)"
  unfolding upper_def by (induction w) (auto dest: upper_char_letter)

lemma upper_nonempty: "list_all is_ascii_letter w \<Longrightarrow> w \<noteq> [] \<Longrightarrow> upper w \<noteq> []"
  unfolding upper_def by (cases w) (auto dest: upper_char_letter)

lemma currency_code_upper: "currency_code w \<Longrightarrow> currency_code (upper w)"
  by (simp add: currency_code_def upper_letters upper_nonempty)

lemma currency_code_strip: "currency_code c \<Longrightarrow> strip c = c"
proof (rule strip_id)
  assume c: "currency_code c"
  then show "c \<noteq> []" by (simp add: currency_code_def)
  with c have "is_ascii_letter (hd c)" "is_ascii_letter (last c)"
    by (simp_all add: currency_code_def list_all_iff)
  then show "\<not> is_space (hd c)" "\<not> is_space (last c)"
    by (simp_all add: ascii_letter_not_space)
qed

lemma clean_str_currency: "currency_ok v \<Longrightarrow> clean_str v = v"
  by (cases v) (auto simp: clean_str_def currency_ok_def currency_code_strip currency_code_def)

lemma consuming_exactly: "consuming m \<Longrightarrow> reads_only P m \<Longrightarrow> consuming (exactly (Suc n) m)"
  unfolding exactly.simps by (rule consuming_seq1[OF _ reads_only_exactly])

lemma letters3: "reads_only is_ascii_letter (exactly 3 (chr is_ascii_letter))"
  by (intro reads_only_exactly reads_only_chr)

lemma detect_invoice_currency_ok: "currency_ok (detect_invoice_currency t)"
proof (cases "search CURRENCY_RE t")
  case None then show ?thesis by (simp add: detect_invoice_currency_def currency_ok_def)
next
  case (Some r)
  obtain w g b s where r: "r = (w, g, b, s)" by (cases r) auto
  from Some r obtain b0 s0 where "(b, s, g) \<in> set (CURRENCY_RE (b0, s0, []))"
    unfolding search_def by (auto dest: search_from_Some)
  then obtain st1 where st1: "st1 \<in> set (lit_ci ''Gesamtkosten'' (b0, s0, []))"
    and r1: "(b, s, g) \<in> set (seq (plus_greedy (chr is_space))
                (seq (grp (exactly 3 (chr is_ascii_letter))) (\<lambda>st. [st])) st1)"
    unfolding CURRENCY_RE_def seqs.simps by (rule in_seqE)
  from r1 obtain st2 where st2: "st2 \<in> set (plus_greedy (chr is_space) st1)"
    and r2: "(b, s, g) \<in> set (seq (grp (exactly 3 (chr is_ascii_letter))) (\<lambda>st. [st]) st2)"
    by (rule in_seqE)
  from r2 have st3: "(b, s, g) \<in> set (grp (exactly 3 (chr is_ascii_letter)) st2)"
    by (simp add: seq_def)
  then obtain x where x: "x \<in> set (exactly 3 (chr is_ascii_letter) st2)"
    and e: "(b, s, g) = (before x, rest x, groups x @ [consumed (rest st2) (rest x)])"
    unfolding in_grp by blast
  have "groups st2 = []"
    using keeps_groupsD[OF keeps_groups_plus[OF keeps_groups_chr] st2]
      keeps_groupsD[OF keeps_groups_lit_ci st1] by (simp add: groups_def)
  then have "groups x = []"
    using keeps_groupsD[OF keeps_groups_exactly[OF keeps_groups_chr] x] by simp
  with e have g: "g = [consumed (rest st2) (rest x)]" by simp
  obtain v where v: "reads st2 v x" "list_all is_ascii_letter v"
    using reads_onlyD[OF letters3 x] by blast
  have c3: "consuming (exactly 3 (chr is_ascii_letter))"
    unfolding numeral_3_eq_3
    by (rule consuming_exactly[OF consuming_chr reads_only_any])
  have "v \<noteq> []" using consumingD[OF c3 x] reads_length[OF v(1)] by auto
  with v g have "currency_code (g ! 0)"
    by (simp add: reads_consumed[OF v(1)] currency_code_def)
  then show ?thesis using Some r by (simp add: detect_invoice_currency_def currency_ok_def)
qed

lemma lower_az_lower_char: "is_lower_az (lower_char d) \<Longrightarrow> is_ascii_letter d"
proof (cases d)
  case (Char b0 b1 b2 b3 b4 b5 b6 b7)
  assume "is_lower_az (lower_char d)"
  then show ?thesis
    unfolding Char
    by (cases b0; cases b1; cases b2; cases b3; cases b4; cases b5; cases b6; cases b7) simp_all
qed

lemma lower_char_letter:
  assumes "c \<in> set ''CHFEURUSDGBP''" "lower_char d = lower_char c"
  shows "is_ascii_letter d"
proof -
  from assms(1) have "is_lower_az (lower_char c)" by auto
  with assms(2) show ?thesis by (simp add: lower_az_lower_char)
qed

lemma currency_word_reads:
  "set w \<subseteq> set ''CHFEURUSDGBP'' \<Longrightarrow> reads_only is_ascii_letter (lit_ci w)"
proof (rule reads_only_lit_ci)
  fix c d assume w: "set w \<subseteq> set ''CHFEURUSDGBP''" and "c \<in> set w" "lower_char d = lower_char c"
  then have "c \<in> set ''CHFEURUSDGBP''" by blast
  then show "is_ascii_letter d" using \<open>lower_char d = lower_char c\<close> by (rule lower_char_letter)
qed

lemma consuming_lit_ci: "w \<noteq> [] \<Longrightarrow> consuming (lit_ci w)"
proof (cases w)
  case (Cons c cs)
  have "lit_ci (c # cs) = seq (chr (\<lambda>d. lower_char d = lower_char c)) (lit_ci cs)"
    by (simp add: lit_ci_def)
  then show ?thesis
    unfolding Cons by (simp only: consuming_seq1[OF consuming_chr reads_only_any_lit_ci])
qed simp

lemma detect_currency_inline_ok: "currency_ok (detect_currency_inline line)"
proof (cases "search INLINE_CURRENCY_RE line")
  case None then show ?thesis by (simp add: detect_currency_inline_def currency_ok_def)
next
  case (Some r)
  obtain w g b s where r: "r = (w, g, b, s)" by (cases r) auto
  let ?A = "alts [lit_ci ''CHF'', lit_ci ''EUR'', lit_ci ''USD'', lit_ci ''GBP'']"
  from Some r obtain b0 s0 where "(b, s, g) \<in> set (INLINE_CURRENCY_RE (b0, s0, []))"
    unfolding search_def by (auto dest: search_from_Some)
  then obtain st1 where st1: "st1 \<in> set (wordb (b0, s0, []))"
    and r1: "(b, s, g) \<in> set (seq (grp ?A) (seq wordb (\<lambda>st. [st])) st1)"
    unfolding INLINE_CURRENCY_RE_def seqs.simps by (rule in_seqE)
  from r1 obtain st2 where st2: "st2 \<in> set (grp ?A st1)"
    and r2: "(b, s, g) \<in> set (seq wordb (\<lambda>st. [st]) st2)"
    by (rule in_seqE)
  from r2 have "(b, s, g) \<in> set (wordb st2)" by (simp add: seq_def)
  then have fin: "(b, s, g) = st2" by (simp add: in_wordb)
  from st2 obtain x where x: "x \<in> set (?A st1)"
    and e: "st2 = (before x, rest x, groups x @ [consumed (rest st1) (rest x)])"
    unfolding in_grp by blast
  have A_reads: "reads_only is_ascii_letter ?A"
    unfolding alts.simps
    by (intro reads_only_alt currency_word_reads) (simp_all add: reads_only_def)
  have A_cons: "consuming ?A"
    unfolding alts.simps
    by (intro consuming_alt consuming_lit_ci) (simp_all add: consuming_def)
  have A_keeps: "keeps_groups ?A"
    unfolding alts.simps
    by (intro keeps_groups_alt keeps_groups_lit_ci) (simp add: keeps_groups_def)
  have "groups st1 = []" using st1 by (simp add: in_wordb groups_def)
  then have "groups x = []" using keeps_groupsD[OF A_keeps x] by simp
  with e fin have g: "g = [consumed (rest st1) (rest x)]" by simp
  obtain v where v: "reads st1 v x" "list_all is_ascii_letter v"
    using reads_onlyD[OF A_reads x] by blast
  have "v \<noteq> []" using consumingD[OF A_cons x] reads_length[OF v(1)] by auto
  with v g have "currency_code (g ! 0)"
    by (simp add: reads_consumed[OF v(1)] currency_code_def)
  then show ?thesis
    using Some r by (simp add: detect_currency_inline_def currency_ok_def currency_code_upper)
qed

lemma row_item_currency_ok:
  assumes "row_item pr ci raw = Inr (Some it)" "currency_ok ci"
  shows "currency_ok (currency it)"
proof -
  from assms(1) have "currency it = (case detect_currency_inline (strip raw) of
                      Some c \<Rightarrow> if c \<noteq> [] then Some c else ci | None \<Rightarrow> ci)"
    by (rule row_item_Some)
  then show ?thesis
    using detect_currency_inline_ok[of "strip raw"] assms(2)
    by (auto simp: currency_ok_def split: option.splits)
qed

lemma foldl_cost_step_source:
  assumes "foldl (cost_step pr ci) (Inr (items, seen)) ls = Inr (items', seen')"
  shows "\<forall>it\<in>set items'. it \<in> set items \<or> (\<exists>raw\<in>set ls. row_item pr ci raw = Inr (Some it))"
  using assms
proof (induction ls arbitrary: items seen)
  case Nil then show ?case by auto
next
  case (Cons raw ls)
  show ?case
  proof (cases "cost_step pr ci (Inr (items, seen)) raw")
    case (Inl e)
    with Cons.prems show ?thesis by (simp add: foldl_cost_step_Inl)
  next
    case (Inr p)
    obtain items1 seen1 where p: "p = (items1, seen1)" by (cases p) auto
    from Inr p have src: "\<forall>it\<in>set items1. it \<in> set items \<or> row_item pr ci raw = Inr (Some it)"
      by (auto simp: cost_step_def split: sum.splits option.splits if_splits)
    from Cons.prems Inr p have "foldl (cost_step pr ci) (Inr (items1, seen1)) ls = Inr (items', seen')"
      by simp
    from Cons.IH[OF this] src show ?thesis by auto
  qed
qed

lemma extract_currency_ok:
  assumes "CostExtractor_extract pr t = Inr items"
  shows "\<forall>it\<in>set items. currency_ok (currency it)"
proof -
  from assms obtain seen where
    "foldl (cost_step pr (detect_invoice_currency t)) (Inr ([], {})) (split_nl t) = Inr (items, seen)"
    by (auto simp: CostExtractor_extract_def split: sum.splits)
  from foldl_cost_step_source[OF this] show ?thesis
    using row_item_currency_ok[OF _ detect_invoice_currency_ok] by auto
qed

lemma last_currency_alt:
  "last_currency items =
     (if filter (\<lambda>item. currency item \<noteq> None) items = [] then None
      else currency (last (filter (\<lambda>item. currency item \<noteq> None) items)))"
  by (simp add: last_currency_def split: list.splits)

lemma last_currency_snoc:
  "last_currency (xs @ [x]) = (if currency x \<noteq> None then currency x else last_currency xs)"
  by (simp add: last_currency_alt)

lemma first_currency_rev:
  "\<forall>it\<in>set items. currency_ok (currency it) \<Longrightarrow> first_currency (rev items) = last_currency items"
proof (induction items rule: rev_induct)
  case Nil then show ?case by (simp add: last_currency_def)
next
  case (snoc x xs)
  then show ?case
    by (auto simp: last_currency_snoc currency_ok_def currency_code_def split: option.splits)
qed

lemma last_currency_clean:
  "\<forall>it\<in>set items. currency_ok (currency it) \<Longrightarrow>
   last_currency (map clean_cost_item items) = last_currency items"
proof (induction items rule: rev_induct)
  case Nil then show ?case by simp
next
  case (snoc x xs)
  then have "currency (clean_cost_item x) = currency x"
    by (simp add: clean_cost_item_def clean_str_currency)
  with snoc show ?case by (simp add: last_currency_snoc)
qed

lemma last_currency_ok:
  "\<forall>it\<in>set items. currency_ok (currency it) \<Longrightarrow> currency_ok (last_currency items)"
proof (induction items rule: rev_induct)
  case Nil then show ?case by (simp add: last_currency_def currency_ok_def)
next
  case (snoc x xs) then show ?case by (simp add: last_currency_snoc)
qed

text \<open>
  C10. The \<open>currency_shipment\<close> of the record assembled for a block is the currency of
  the last cost item of the block that has one, and is \<open>None\<close> when no item has one;
  this holds for the record as assembled and for the record after validation.
\<close>

theorem record_currency_is_last_currency:
  assumes "CostExtractor_extract pr t = Inr items"
  shows "currency_shipment (block_result ident page sdate stype loc w items) = last_currency items \<and>
         currency_shipment (validate_record ext (block_result ident page sdate stype loc w items))
         = last_currency (cost_items (validate_record ext (block_result ident page sdate stype loc w items)))"
proof -
  have ok: "\<forall>it\<in>set items. currency_ok (currency it)"
    by (rule extract_currency_ok[OF assms])
  have 1: "currency_shipment (block_result ident page sdate stype loc w items) = last_currency items"
    by (simp add: block_result_def extract_block_currency_def first_currency_rev[OF ok])
  have "clean_str (last_currency items) = last_currency items"
    by (rule clean_str_currency[OF last_currency_ok[OF ok]])
  then have 2: "currency_shipment (validate_record ext (block_result ident page sdate stype loc w items))
         = last_currency (cost_items (validate_record ext (block_result ident page sdate stype loc w items)))"
    using 1 by (simp add: validate_record_def last_currency_clean[OF ok] block_result_def)
  from 1 2 show ?thesis ..
qed

theorem record_currency_is_last_currency_witness:
  "currency_shipment (block_result ''1Z12345678'' (Some 1) None None
       \<lparr>loc_origin_country = None, loc_origin_city = None, loc_origin_zipcode = None,
        loc_destination_country = None, loc_destination_city = None,
        loc_destination_zipcode = None\<rparr>
       \<lparr>gross_weight = None, chargeable_weight = None, loading_meter = None,
        cubic_meter = None, pallet_amount = None\<rparr>
       [\<lparr>extracted_category = Some ''Freight'', total_cost_in_shipment_currency = Some 2,
         currency = Some ''EUR'', mention = Some ''Transport EUR 1,00 2,00''\<rparr>,
        \<lparr>extracted_category = Some ''Maut'', total_cost_in_shipment_currency = Some 3,
         currency = None, mention = Some ''Maut 1,00 3,00''\<rparr>]) = Some ''EUR''"
proof -
  let ?items = "[\<lparr>extracted_category = Some ''Freight'', total_cost_in_shipment_currency = Some 2,
         currency = Some ''EUR'', mention = Some ''Transport EUR 1,00 2,00''\<rparr>,
        \<lparr>extracted_category = Some ''Maut'', total_cost_in_shipment_currency = Some 3,
         currency = None, mention = Some ''Maut 1,00 3,00''\<rparr>]"
  have e: "CostExtractor_extract (\<lambda>k d. if k = ''transport'' \<and> contains k d then 100 else 0)
             ''Transport EUR 1,00 2,00\<newline>Maut 1,00 3,00'' = Inr ?items"
    by code_simp
  have l: "last_currency ?items = Some ''EUR''"
    by (simp add: last_currency_def)
  from record_currency_is_last_currency[OF e] l show ?thesis by simp
qed

section \<open>The value of a cost row\<close>

lemma int_of_digits_foldl:
  "foldl (\<lambda>n c. 10 * n + digit_val c) n b = n * 10 ^ length b + int_of_digits b"
proof -
  define f where "f = (\<lambda>(n::int) c. 10 * n + digit_val c)"
  have "foldl f n b = n * 10 ^ length b + foldl f 0 b"
  proof (induction b arbitrary: n)
    case Nil then show ?case by simp
  next
    case (Cons c b)
    have 1: "foldl f (f n c) b = f n c * 10 ^ length b + foldl f 0 b" by (rule Cons)
    have 2: "foldl f (f 0 c) b = f 0 c * 10 ^ length b + foldl f 0 b" by (rule Cons)
    have 3: "f n c = 10 * n + f 0 c" by (simp add: f_def)
    show ?case
      unfolding foldl_Cons 1 2 by (subst 3) (simp add: algebra_simps)
  qed
  then show ?thesis by (simp add: f_def int_of_digits_def)
qed

lemma int_of_digits_append:
  "int_of_digits (a @ b) = int_of_digits a * 10 ^ length b + int_of_digits b"
  using int_of_digits_foldl[of "int_of_digits a" b] by (simp add: int_of_digits_def)

lemma split_on_none: "sep \<notin> set a \<Longrightarrow> split_on sep a = [a]"
  by (induction a) auto

lemma split_on_first: "sep \<notin> set a \<Longrightarrow> split_on sep (a @ sep # b) = a # split_on sep b"
  by (induction a) auto

lemma digit_not_dot: "is_digit c \<Longrightarrow> c \<noteq> CHR ''.'' \<and> c \<noteq> CHR '',''"
  by (cases c) auto

lemma py_float_decimal:
  assumes "list_all is_digit ds" "list_all is_digit dec" "ds \<noteq> []"
  shows "py_float (ds @ CHR ''.'' # dec)
         = Some (of_int (int_of_digits ds) + of_int (int_of_digits dec) / 10 ^ length dec)"
proof -
  have "CHR ''.'' \<notin> set ds" "CHR ''.'' \<notin> set dec"
    using assms(1,2) digit_not_dot by (auto simp: list_all_iff)
  then have "split_on CHR ''.'' (ds @ CHR ''.'' # dec) = [ds, dec]"
    by (simp add: split_on_first split_on_none)
  then show ?thesis
    using assms by (simp add: py_float_def int_of_digits_append add_divide_distrib)
qed

lemma in_lit1: "st' \<in> set (lit [c] st) \<longleftrightarrow> (\<exists>cs. rest st = c # cs \<and> st' = (Some c, cs, groups st))"
  by (auto simp: lit_def seq_def in_chr)

lemma german_number_shape:
  assumes "y \<in> set (german_number z)" "reads z tok y"
  shows "\<exists>ip dec. tok = ip @ CHR '','' # dec \<and> list_all (\<lambda>c. is_digit c \<or> c = CHR ''.'') ip \<and>
           filter is_digit ip \<noteq> [] \<and> list_all is_digit dec"
proof -
  let ?grp = "star (seqs [lit ''.'', exactly 3 (chr is_digit)])"
  from assms(1) obtain a where a: "a \<in> set (rep 1 3 (chr is_digit) z)"
    and r1: "y \<in> set (seq ?grp (seq (lit '','') (seq (rep 1 2 (chr is_digit)) (\<lambda>st. [st]))) a)"
    unfolding german_number_def seqs.simps by (rule in_seqE)
  from r1 obtain b where b: "b \<in> set (?grp a)"
    and r2: "y \<in> set (seq (lit '','') (seq (rep 1 2 (chr is_digit)) (\<lambda>st. [st])) b)"
    by (rule in_seqE)
  from r2 obtain c where c: "c \<in> set (lit '','' b)"
    and r3: "y \<in> set (seq (rep 1 2 (chr is_digit)) (\<lambda>st. [st]) c)"
    by (rule in_seqE)
  from r3 have y: "y \<in> set (rep 1 2 (chr is_digit) c)" by (simp add: seq_def)
  obtain w1 where w1: "reads z w1 a" "list_all is_digit w1"
    using reads_onlyD[OF reads_only_rep[OF reads_only_chr] a] by blast
  have "w1 \<noteq> []"
    using consumingD[OF consuming_rep[OF _ consuming_chr reads_only_any] a] reads_length[OF w1(1)]
    by auto
  have gr: "reads_only (\<lambda>c. is_digit c \<or> c = CHR ''.'') ?grp"
    unfolding seqs.simps
    by (intro reads_only_intros reads_only_chr reads_only_lit) simp_all
  obtain w2 where w2: "reads a w2 b" "list_all (\<lambda>c. is_digit c \<or> c = CHR ''.'') w2"
    using reads_onlyD[OF gr b] by blast
  from c obtain cs where cs: "rest b = CHR '','' # cs" "c = (Some CHR '','', cs, groups b)"
    by (auto simp: in_lit1)
  then have w3: "reads b '','' c" by (simp add: reads_def rest_def before_def)
  obtain w4 where w4: "reads c w4 y" "list_all is_digit w4"
    using reads_onlyD[OF reads_only_rep[OF reads_only_chr] y] by blast
  have "reads z (w1 @ w2 @ '','' @ w4) y"
    by (intro reads_trans[OF w1(1)] reads_trans[OF w2(1)] reads_trans[OF w3] w4(1))
  then have "tok = (w1 @ w2) @ CHR '','' # w4"
    using reads_unique[OF assms(2)] by simp
  moreover have "list_all (\<lambda>c. is_digit c \<or> c = CHR ''.'') (w1 @ w2)"
    using w1(2) w2(2) by (auto simp: list_all_iff)
  moreover have "filter is_digit (w1 @ w2) \<noteq> []"
    using \<open>w1 \<noteq> []\<close> w1(2) by (cases w1) auto
  ultimately show ?thesis using w4(2) by blast
qed

lemma to_float_german:
  assumes "tok = ip @ CHR '','' # dec" "list_all (\<lambda>c. is_digit c \<or> c = CHR ''.'') ip"
    "filter is_digit ip \<noteq> []" "list_all is_digit dec"
  shows "CostExtractor_to_float tok
         = (if german_value tok < 10000000 then Some (german_value tok) else None)"
proof -
  have nc: "\<forall>x\<in>set ip. x \<noteq> CHR '',''"
    using assms(2) digit_not_dot by (auto simp: list_all_iff)
  have tw: "takeWhile (\<lambda>c. c \<noteq> CHR '','') (ip @ CHR '','' # dec) = ip"
    using nc by (simp add: takeWhile_append2)
  have dw: "dropWhile (\<lambda>c. c \<noteq> CHR '','') (ip @ CHR '','' # dec) = CHR '','' # dec"
    using nc by (simp add: dropWhile_append2)
  have f: "filter (\<lambda>c. c \<noteq> CHR ''.'') ip = filter is_digit ip"
    using assms(2) digit_not_dot by (intro filter_cong) (auto simp: list_all_iff)
  have d: "filter (\<lambda>c. c \<noteq> CHR ''.'') dec = dec"
    using assms(4) digit_not_dot by (auto simp: list_all_iff filter_id_conv)
  have m1: "map (\<lambda>c. if c = CHR '','' then CHR ''.'' else c) (filter is_digit ip) = filter is_digit ip"
    using digit_not_dot by (intro map_idI) auto
  have m2: "map (\<lambda>c. if c = CHR '','' then CHR ''.'' else c) dec = dec"
    using assms(4) digit_not_dot by (intro map_idI) (auto simp: list_all_iff)
  have "replace_char CHR '','' CHR ''.'' (remove_char CHR ''.'' tok)
        = filter is_digit ip @ CHR ''.'' # dec"
    by (simp add: assms(1) replace_char_def remove_char_def f d m1 m2)
  moreover have "py_float (filter is_digit ip @ CHR ''.'' # dec)
       = Some (of_int (int_of_digits (filter is_digit ip)) + of_int (int_of_digits dec) / 10 ^ length dec)"
    by (rule py_float_decimal[OF _ assms(4) assms(3)]) (simp add: list_all_iff)
  moreover have "german_value tok
       = of_int (int_of_digits (filter is_digit ip)) + of_int (int_of_digits dec) / 10 ^ length dec"
    unfolding german_value_def assms(1) tw dw by (simp add: Let_def)
  ultimately show ?thesis
    by (simp add: CostExtractor_to_float_def assms(1))
qed

lemma row_value:
  assumes "row_item pr ci raw = Inr (Some it)"
  shows "\<exists>pre tok. mention it = Some (pre @ tok) \<and> ends_with_space pre \<and>
           (\<exists>z y. y \<in> set (german_number z) \<and> rest z = tok \<and> rest y = []) \<and>
           total_cost_in_shipment_currency it
           = (if german_value tok < 10000000 then Some (german_value tok) else None)"
proof -
  from row_rightmost[OF assms] obtain pre tok z y where
    l: "strip raw = pre @ tok" and pre: "ends_with_space pre"
    and zy: "y \<in> set (german_number z)" "rest z = tok" "rest y = []"
    and tot: "total_cost_in_shipment_currency it = CostExtractor_to_float tok"
    by blast
  obtain tok' where t': "reads z tok' y"
    using reads_onlyD[OF german_number_reads zy(1)] by blast
  then have "tok' = tok" using zy(2,3) by (simp add: reads_def)
  with t' have "reads z tok y" by simp
  from german_number_shape[OF zy(1) this] obtain ip dec where
    "tok = ip @ CHR '','' # dec" "list_all (\<lambda>c. is_digit c \<or> c = CHR ''.'') ip"
    "filter is_digit ip \<noteq> []" "list_all is_digit dec"
    by blast
  then have "CostExtractor_to_float tok
         = (if german_value tok < 10000000 then Some (german_value tok) else None)"
    by (rule to_float_german)
  moreover from assms have "mention it = Some (strip raw)" by (rule row_item_Some)
  ultimately have "mention it = Some (pre @ tok) \<and> ends_with_space pre \<and>
           (\<exists>z y. y \<in> set (german_number z) \<and> rest z = tok \<and> rest y = []) \<and>
           total_cost_in_shipment_currency it
           = (if german_value tok < 10000000 then Some (german_value tok) else None)"
    using l pre zy tot by (intro conjI exI[of _ z] exI[of _ y]) simp_all
  then show ?thesis by blast
qed

lemma extract_item_value:
  assumes "CostExtractor_extract pr t = Inr items" "it \<in> set items"
  shows "\<exists>pre tok. mention it = Some (pre @ tok) \<and> ends_with_space pre \<and>
           (\<exists>z y. y \<in> set (german_number z) \<and> rest z = tok \<and> rest y = []) \<and>
           total_cost_in_shipment_currency it
           = (if german_value tok < 10000000 then Some (german_value tok) else None)"
proof -
  from assms(1) obtain seen where
    "foldl (cost_step pr (detect_invoice_currency t)) (Inr ([], {})) (split_nl t) = Inr (items, seen)"
    by (auto simp: CostExtractor_extract_def split: sum.splits)
  from foldl_cost_step_source[OF this] assms(2) obtain raw where
    "row_item pr (detect_invoice_currency t) raw = Inr (Some it)"
    by auto
  then show ?thesis by (rule row_value)
qed

lemma extract_transport:
  "\<exists>it. CostExtractor_extract pr ''Transport 1.234,56 617,28'' = Inr [it] \<and>
        total_cost_in_shipment_currency it = Some (61728 / 100)"
proof -
  have 1: "split_nl ''Transport 1.234,56 617,28'' = [''Transport 1.234,56 617,28'']" by code_simp
  obtain it where it: "row_item pr (detect_invoice_currency ''Transport 1.234,56 617,28'')
       ''Transport 1.234,56 617,28'' = Inr (Some it)"
    "total_cost_in_shipment_currency it = Some (61728 / 100)"
    using row_transport by blast
  then have "CostExtractor_extract pr ''Transport 1.234,56 617,28'' = Inr [it]"
    by (simp add: CostExtractor_extract_def 1 cost_step_def)
  with it(2) show ?thesis by blast
qed

text \<open>
  C7 (as amended). Every cost item that \<open>CostExtractor.extract\<close> returns comes from a
  line that ends with a German-formatted number preceded by whitespace, and its total
  cost is the value of that rightmost number (dots grouping thousands, comma as the
  decimal point) when the value is below 10,000,000, and null otherwise. In particular
  the row \<open>Transport 1.234,56 617,28\<close> yields one item, with total cost 617.28.
\<close>

theorem cost_row_rightmost_number:
  "(\<forall>pr t items it. CostExtractor_extract pr t = Inr items \<and> it \<in> set items \<longrightarrow>
      (\<exists>pre tok. mention it = Some (pre @ tok) \<and> ends_with_space pre \<and>
         (\<exists>z y. y \<in> set (german_number z) \<and> rest z = tok \<and> rest y = []) \<and>
         total_cost_in_shipment_currency it
         = (if german_value tok < 10000000 then Some (german_value tok) else None)))
   \<and> (\<forall>pr. \<exists>it. CostExtractor_extract pr ''Transport 1.234,56 617,28'' = Inr [it] \<and>
         total_cost_in_shipment_currency it = Some (61728 / 100))"
  using extract_item_value extract_transport by blast

theorem cost_row_rightmost_number_witness:
  "\<exists>it pre tok. CostExtractor_extract zero_ratio ''Transport 1.234,56 617,28'' = Inr [it] \<and>
     mention it = Some (pre @ tok) \<and> ends_with_space pre \<and>
     total_cost_in_shipment_currency it = Some (61728 / 100) \<and>
     (if german_value tok < 10000000 then Some (german_value tok) else None) = Some (61728 / 100)"
proof -
  from cost_row_rightmost_number obtain it where
    it: "CostExtractor_extract zero_ratio ''Transport 1.234,56 617,28'' = Inr [it]"
       "total_cost_in_shipment_currency it = Some (61728 / 100)"
    by blast
  then have "CostExtractor_extract zero_ratio ''Transport 1.234,56 617,28'' = Inr [it] \<and> it \<in> set [it]"
    by simp
  with cost_row_rightmost_number obtain pre tok where
    "mention it = Some (pre @ tok)" "ends_with_space pre"
    "total_cost_in_shipment_currency it
       = (if german_value tok < 10000000 then Some (german_value tok) else None)"
    by blast
  with it have "CostExtractor_extract zero_ratio ''Transport 1.234,56 617,28'' = Inr [it] \<and>
     mention it = Some (pre @ tok) \<and> ends_with_space pre \<and>
     total_cost_in_shipment_currency it = Some (61728 / 100) \<and>
     (if german_value tok < 10000000 then Some (german_value tok) else None) = Some (61728 / 100)"
    by (intro conjI) simp_all
  then show ?thesis by blast
qed

text \<open>
  C7 as stated fails: the row \<open>Transport 1,00 10.000.000,00\<close> is matched and kept, but
  its rightmost number is not below 10,000,000 and the total cost of the item is null.
\<close>

theorem cost_row_implausible_total_counterexample:
  "CostExtractor_extract zero_ratio ''Transport 1,00 10.000.000,00''
   = Inr [\<lparr>extracted_category = Some ''Transport'', total_cost_in_shipment_currency = None,
           currency = None, mention = Some ''Transport 1,00 10.000.000,00''\<rparr>]"
  by code_simp

subsection \<open>The cost-row filter of the weight extractor\<close>

lemma split_nl_join:
  "ls \<noteq> [] \<Longrightarrow> \<forall>x\<in>set ls. CHR 0x0A \<notin> set x \<Longrightarrow> split_nl (join_nl ls) = ls"
proof (induction ls rule: join_nl.induct)
  case 1
  then show ?case by simp
next
  case (2 x)
  then show ?case by (simp add: split_nl_def split_on_none)
next
  case (3 x y ys)
  then have "split_nl (join_nl (y # ys)) = y # ys" by simp
  moreover have "CHR 0x0A \<notin> set x" using 3 by simp
  ultimately show ?case
    unfolding split_nl_def by (simp add: split_on_first)
qed

lemma stripped_lines_join:
  assumes "\<forall>x\<in>set ls. CHR 0x0A \<notin> set x"
  shows "stripped_lines (join_nl ls) = filter (\<lambda>l. l \<noteq> []) (map strip ls)"
proof (cases "ls = []")
  case True
  then show ?thesis by (simp add: stripped_lines_def split_nl_def strip_def lstrip_def rstrip_def)
next
  case False
  then show ?thesis using assms by (simp add: stripped_lines_def split_nl_join)
qed

lemma clean_lines_join:
  assumes "\<forall>x\<in>set ls. CHR 0x0A \<notin> set x"
  shows "clean_lines (join_nl ls)
         = filter (\<lambda>l. l \<noteq> [] \<and> \<not> found RE_COST_ROW l) (map strip ls)"
  using assms by (simp add: clean_lines_def stripped_lines_join conj_commute)

lemma clean_lines_drop_cost_row:
  assumes "found RE_COST_ROW (strip l)" "CHR 0x0A \<notin> set l" "\<forall>x\<in>set (xs @ ys). CHR 0x0A \<notin> set x"
  shows "clean_lines (join_nl (xs @ l # ys)) = clean_lines (join_nl (xs @ ys))"
proof -
  have "\<forall>x\<in>set (xs @ l # ys). CHR 0x0A \<notin> set x" using assms by auto
  then show ?thesis using assms by (simp add: clean_lines_join)
qed

lemma cost_pair_found: "found RE_COST_ROW ''748,40 374,25''"
  by code_simp

lemma cost_pair_strip: "strip ''748,40 374,25'' = ''748,40 374,25''"
  by code_simp

lemma gewicht_cost_pair: "WeightExtractor_extract ''Gewicht 748,40 374,25'' = Inr weights_init"
  by code_simp

text \<open>
  C6. A line whose stripped text matches the cost-pair pattern \<open>RE_COST_ROW\<close> is dropped
  before the four passes of \<open>WeightExtractor.extract\<close>: the result for a text with such
  a line is the result for the text without it, and no line that the passes read matches
  the pattern. In particular the line \<open>748,40 374,25\<close> changes no result, and the text
  \<open>Gewicht 748,40 374,25\<close>, a cost row with a weight keyword, leaves all five fields null.
\<close>

theorem weight_cost_rows_dropped:
  "(\<forall>xs l ys. found RE_COST_ROW (strip l) \<and> CHR 0x0A \<notin> set l \<and>
        (\<forall>x\<in>set (xs @ ys). CHR 0x0A \<notin> set x) \<longrightarrow>
      WeightExtractor_extract (join_nl (xs @ l # ys)) = WeightExtractor_extract (join_nl (xs @ ys)))
   \<and> (\<forall>t. \<forall>ln\<in>set (clean_lines t). \<not> found RE_COST_ROW ln)
   \<and> (\<forall>xs ys. (\<forall>x\<in>set (xs @ ys). CHR 0x0A \<notin> set x) \<longrightarrow>
      WeightExtractor_extract (join_nl (xs @ ''748,40 374,25'' # ys))
      = WeightExtractor_extract (join_nl (xs @ ys)))
   \<and> WeightExtractor_extract ''Gewicht 748,40 374,25'' = Inr weights_init"
proof (intro conjI allI impI)
  fix xs l ys
  assume "found RE_COST_ROW (strip l) \<and> CHR 0x0A \<notin> set l \<and> (\<forall>x\<in>set (xs @ ys). CHR 0x0A \<notin> set x)"
  then have "clean_lines (join_nl (xs @ l # ys)) = clean_lines (join_nl (xs @ ys))"
    using clean_lines_drop_cost_row by blast
  then show "WeightExtractor_extract (join_nl (xs @ l # ys)) = WeightExtractor_extract (join_nl (xs @ ys))"
    by (simp add: WeightExtractor_extract_def)
next
  fix t
  show "\<forall>ln\<in>set (clean_lines t). \<not> found RE_COST_ROW ln"
    by (simp add: clean_lines_def)
next
  fix xs ys :: "string list"
  assume a: "\<forall>x\<in>set (xs @ ys). CHR 0x0A \<notin> set x"
  have "CHR 0x0A \<notin> set ''748,40 374,25''" by simp
  with a have "clean_lines (join_nl (xs @ ''748,40 374,25'' # ys)) = clean_lines (join_nl (xs @ ys))"
    using clean_lines_drop_cost_row[of "''748,40 374,25''" xs ys] cost_pair_found cost_pair_strip
    by simp
  then show "WeightExtractor_extract (join_nl (xs @ ''748,40 374,25'' # ys))
      = WeightExtractor_extract (join_nl (xs @ ys))"
    by (simp add: WeightExtractor_extract_def)
next
  show "WeightExtractor_extract ''Gewicht 748,40 374,25'' = Inr weights_init"
    by (rule gewicht_cost_pair)
qed

theorem weight_cost_rows_dropped_witness:
  "found RE_COST_ROW (strip '' 748,40 374,25 '')
   \<and> WeightExtractor_extract ''Gewicht 5,0\<newline> 748,40 374,25 \<newline>Brutto 7,5''
     = WeightExtractor_extract ''Gewicht 5,0\<newline>Brutto 7,5''"
proof -
  have f: "found RE_COST_ROW (strip '' 748,40 374,25 '')" by code_simp
  have "found RE_COST_ROW (strip '' 748,40 374,25 '') \<and> CHR 0x0A \<notin> set '' 748,40 374,25 '' \<and>
        (\<forall>x\<in>set ([''Gewicht 5,0''] @ [''Brutto 7,5'']). CHR 0x0A \<notin> set x)"
    using f by simp
  with weight_cost_rows_dropped
  have "WeightExtractor_extract (join_nl ([''Gewicht 5,0''] @ '' 748,40 374,25 '' # [''Brutto 7,5'']))
        = WeightExtractor_extract (join_nl ([''Gewicht 5,0''] @ [''Brutto 7,5'']))"
    by blast
  with f show ?thesis by simp
qed

subsection \<open>The passes of the weight extractor\<close>















lemma container_line_type_error:
  "WeightExtractor_extract ''Gewicht/Container 99999999/5'' = Inl TypeError"
  by code_simp




section \<open>Repetitions of a character class\<close>

lemma mstate_eqI: "before a = before b \<Longrightarrow> rest a = rest b \<Longrightarrow> groups a = groups b \<Longrightarrow> a = b"
  by (cases a; cases b) (simp add: before_def rest_def groups_def)

lemma reads_Cons:
  "reads st (c # w) st' \<longleftrightarrow> (\<exists>cs. rest st = c # cs \<and> reads (Some c, cs, groups st) w st')"
  by (auto simp: reads_def rest_def before_def)

lemma in_exactly_chr:
  "st' \<in> set (exactly n (chr P) st) \<longleftrightarrow>
   (\<exists>w. length w = n \<and> list_all P w \<and> reads st w st' \<and> groups st' = groups st)"
proof (induction n arbitrary: st)
  case 0
  show ?case by (auto simp: reads_def intro: mstate_eqI)
next
  case (Suc n)
  show ?case
  proof
    assume "st' \<in> set (exactly (Suc n) (chr P) st)"
    then obtain mid where m: "mid \<in> set (chr P st)" "st' \<in> set (exactly n (chr P) mid)"
      by (auto simp: in_seq)
    from m(1) obtain c cs where c: "rest st = c # cs" "P c" "mid = (Some c, cs, groups st)"
      by (auto simp: in_chr)
    from m(2) Suc obtain w where
      w: "length w = n" "list_all P w" "reads mid w st'" "groups st' = groups mid"
      by blast
    have "reads st (c # w) st'" using c w(3) by (simp add: reads_Cons)
    moreover have "groups st' = groups st" using w(4) c(3) by (simp add: groups_def)
    ultimately show "\<exists>w. length w = Suc n \<and> list_all P w \<and> reads st w st' \<and> groups st' = groups st"
      using w(1,2) c(2) by (intro exI[of _ "c # w"]) simp
  next
    assume "\<exists>w. length w = Suc n \<and> list_all P w \<and> reads st w st' \<and> groups st' = groups st"
    then obtain w where
      w: "length w = Suc n" "list_all P w" "reads st w st'" "groups st' = groups st"
      by blast
    then obtain c v where cv: "w = c # v" by (cases w) auto
    from w(3) cv obtain cs where cs: "rest st = c # cs" "reads (Some c, cs, groups st) v st'"
      by (auto simp: reads_Cons)
    have "(Some c, cs, groups st) \<in> set (chr P st)" using w(2) cv cs(1) by (simp add: in_chr)
    moreover have "st' \<in> set (exactly n (chr P) (Some c, cs, groups st))"
      unfolding Suc using w cv cs(2) by (intro exI[of _ v]) (simp add: groups_def)
    ultimately show "st' \<in> set (exactly (Suc n) (chr P) st)" by (auto simp: in_seq)
  qed
qed

lemma in_upto_greedy_Suc:
  "st' \<in> set (upto_greedy (Suc n) m st) \<longleftrightarrow>
   (\<exists>mid\<in>set (m st). st' \<in> set (upto_greedy n m mid)) \<or> st' = st"
  by auto

lemma in_upto_chr:
  "st' \<in> set (upto_greedy n (chr P) st) \<longleftrightarrow>
   (\<exists>w. length w \<le> n \<and> list_all P w \<and> reads st w st' \<and> groups st' = groups st)"
proof (induction n arbitrary: st)
  case 0
  show ?case by (auto simp: reads_def intro: mstate_eqI)
next
  case (Suc n)
  show ?case
  proof
    assume "st' \<in> set (upto_greedy (Suc n) (chr P) st)"
    then consider mid where "mid \<in> set (chr P st)" "st' \<in> set (upto_greedy n (chr P) mid)"
      | "st' = st"
      unfolding in_upto_greedy_Suc by blast
    then show "\<exists>w. length w \<le> Suc n \<and> list_all P w \<and> reads st w st' \<and> groups st' = groups st"
    proof cases
      case 1
      from 1(1) obtain c cs where c: "rest st = c # cs" "P c" "mid = (Some c, cs, groups st)"
        by (auto simp: in_chr)
      from 1(2) Suc obtain w where
        w: "length w \<le> n" "list_all P w" "reads mid w st'" "groups st' = groups mid"
        by blast
      have "reads st (c # w) st'" using c w(3) by (simp add: reads_Cons)
      moreover have "groups st' = groups st" using w(4) c(3) by (simp add: groups_def)
      ultimately show ?thesis using w(1,2) c(2) by (intro exI[of _ "c # w"]) simp
    next
      case 2
      then show ?thesis by (intro exI[of _ "[]"]) simp
    qed
  next
    assume "\<exists>w. length w \<le> Suc n \<and> list_all P w \<and> reads st w st' \<and> groups st' = groups st"
    then obtain w where
      w: "length w \<le> Suc n" "list_all P w" "reads st w st'" "groups st' = groups st"
      by blast
    show "st' \<in> set (upto_greedy (Suc n) (chr P) st)"
    proof (cases w)
      case Nil
      with w have "st' = st" by (auto simp: reads_def intro: mstate_eqI)
      then show ?thesis unfolding in_upto_greedy_Suc by simp
    next
      case (Cons c v)
      from w(3) Cons obtain cs where cs: "rest st = c # cs" "reads (Some c, cs, groups st) v st'"
        by (auto simp: reads_Cons)
      have "(Some c, cs, groups st) \<in> set (chr P st)" using w(2) Cons cs(1) by (simp add: in_chr)
      moreover have "st' \<in> set (upto_greedy n (chr P) (Some c, cs, groups st))"
        unfolding Suc using w Cons cs(2) by (intro exI[of _ v]) (simp add: groups_def)
      ultimately show ?thesis unfolding in_upto_greedy_Suc by blast
    qed
  qed
qed

lemma reads_split:
  assumes "reads st (u @ v) st'"
  shows "reads st u (if u = [] then before st else Some (last u), v @ rest st', g)
         \<and> reads (if u = [] then before st else Some (last u), v @ rest st', g) v st'"
  using assms by (auto simp: reads_def rest_def before_def)

lemma in_rep_chr:
  assumes "lo \<le> hi"
  shows "st' \<in> set (rep lo hi (chr P) st) \<longleftrightarrow>
   (\<exists>w. lo \<le> length w \<and> length w \<le> hi \<and> list_all P w \<and> reads st w st' \<and> groups st' = groups st)"
proof
  assume "st' \<in> set (rep lo hi (chr P) st)"
  then obtain mid where "mid \<in> set (exactly lo (chr P) st)"
    "st' \<in> set (upto_greedy (hi - lo) (chr P) mid)"
    unfolding rep_def in_seq by blast
  then obtain u v where
    u: "length u = lo" "list_all P u" "reads st u mid" "groups mid = groups st" and
    v: "length v \<le> hi - lo" "list_all P v" "reads mid v st'" "groups st' = groups mid"
    unfolding in_exactly_chr in_upto_chr by blast
  have "reads st (u @ v) st'" using u(3) v(3) by (rule reads_trans)
  then show "\<exists>w. lo \<le> length w \<and> length w \<le> hi \<and> list_all P w \<and> reads st w st' \<and> groups st' = groups st"
    using u v assms by (intro exI[of _ "u @ v"]) simp
next
  assume "\<exists>w. lo \<le> length w \<and> length w \<le> hi \<and> list_all P w \<and> reads st w st' \<and> groups st' = groups st"
  then obtain w where
    w: "lo \<le> length w" "length w \<le> hi" "list_all P w" "reads st w st'" "groups st' = groups st"
    by blast
  define u where "u = take lo w"
  define v where "v = drop lo w"
  define mid where "mid = (if u = [] then before st else Some (last u), v @ rest st', groups st)"
  have uv: "w = u @ v" by (simp add: u_def v_def)
  have lu: "length u = lo" using w(1) by (simp add: u_def)
  have lv: "length v \<le> hi - lo" using w(1,2) by (simp add: v_def)
  have P: "list_all P u" "list_all P v" using w(3) uv by simp_all
  from w(4) have r: "reads st u mid" "reads mid v st'"
    unfolding uv mid_def using reads_split by blast+
  have g: "groups mid = groups st" by (simp add: mid_def groups_def)
  have "mid \<in> set (exactly lo (chr P) st)"
    unfolding in_exactly_chr using lu P(1) r(1) g by blast
  moreover have "st' \<in> set (upto_greedy (hi - lo) (chr P) mid)"
    unfolding in_upto_chr using lv P(2) r(2) g w(5) by (intro exI[of _ v]) simp
  ultimately show "st' \<in> set (rep lo hi (chr P) st)"
    unfolding rep_def in_seq by blast
qed

lemma in_lit: "st' \<in> set (lit s st) \<longleftrightarrow> reads st s st' \<and> groups st' = groups st"
proof (induction s arbitrary: st)
  case Nil
  show ?case by (auto simp: lit_def reads_def intro: mstate_eqI)
next
  case (Cons c cs)
  have e: "lit (c # cs) = seq (chr (\<lambda>d. d = c)) (lit cs)" by (simp add: lit_def)
  show ?case
    unfolding e in_seq Cons reads_Cons
    by (auto simp: in_chr groups_def)
qed

lemma upper_or_digit_word: "is_upper_or_digit c \<Longrightarrow> is_word c"
  by (cases c) auto

lemma upper_or_digit_alnum: "is_upper_or_digit c \<Longrightarrow> is_ascii_alnum c"
  by (cases c) auto

lemma strict_iff:
  "st' \<in> set (RE_UPS_STRICT st) \<longleftrightarrow>
   (\<exists>w. 8 \<le> length w \<and> length w \<le> 20 \<and> list_all is_upper_or_digit w \<and>
        reads st (''1Z'' @ w) st' \<and> groups st' = groups st \<and>
        \<not> word_before (before st) \<and> \<not> word_after (rest st'))"
proof
  assume "st' \<in> set (RE_UPS_STRICT st)"
  then have "st' \<in> set (seq wordb (seq (lit ''1Z'') (seq (rep 8 20 (chr is_upper_or_digit)) wordb)) st)"
    by (simp add: RE_UPS_STRICT_def seq_def)
  then obtain m1 m2 m3 where
    1: "m1 \<in> set (wordb st)" and 2: "m2 \<in> set (lit ''1Z'' m1)" and
    3: "m3 \<in> set (rep 8 20 (chr is_upper_or_digit) m2)" and 4: "st' \<in> set (wordb m3)"
    unfolding in_seq by blast
  from 1 have m1: "m1 = st" "word_before (before st) \<noteq> word_after (rest st)" by (auto simp: in_wordb)
  from 2 m1 have r2: "reads st ''1Z'' m2" "groups m2 = groups st" by (auto simp: in_lit)
  from 3 obtain w where w: "8 \<le> length w" "length w \<le> 20" "list_all is_upper_or_digit w"
    "reads m2 w m3" "groups m3 = groups m2" by (auto simp: in_rep_chr)
  from 4 have m3: "st' = m3" "word_before (before m3) \<noteq> word_after (rest m3)" by (auto simp: in_wordb)
  from r2(1) have "word_after (rest st)" by (auto simp: reads_def word_after_def)
  with m1(2) have a: "\<not> word_before (before st)" by simp
  from w(1) have ne: "w \<noteq> []" by auto
  then have "last w \<in> set w" by simp
  with w(3) have "is_word (last w)" by (auto simp: list_all_iff intro: upper_or_digit_word)
  moreover from w(4) ne have "before m3 = Some (last w)" by (simp add: reads_def)
  ultimately have "word_before (before m3)" by (simp add: word_before_def)
  with m3 have b: "\<not> word_after (rest st')" by simp
  have "reads st (''1Z'' @ w) st'" using reads_trans[OF r2(1) w(4)] m3(1) by simp
  then show "\<exists>w. 8 \<le> length w \<and> length w \<le> 20 \<and> list_all is_upper_or_digit w \<and>
        reads st (''1Z'' @ w) st' \<and> groups st' = groups st \<and>
        \<not> word_before (before st) \<and> \<not> word_after (rest st')"
    using w(1,2,3,5) r2(2) m3(1) a b by (intro exI[of _ w]) simp
next
  assume "\<exists>w. 8 \<le> length w \<and> length w \<le> 20 \<and> list_all is_upper_or_digit w \<and>
        reads st (''1Z'' @ w) st' \<and> groups st' = groups st \<and>
        \<not> word_before (before st) \<and> \<not> word_after (rest st')"
  then obtain w where w: "8 \<le> length w" "length w \<le> 20" "list_all is_upper_or_digit w"
    "reads st (''1Z'' @ w) st'" "groups st' = groups st"
    "\<not> word_before (before st)" "\<not> word_after (rest st')"
    by blast
  define m2 where "m2 = (Some CHR ''Z'', w @ rest st', groups st)"
  from w(4) have r: "reads st ''1Z'' m2" "reads m2 w st'"
    using reads_split[of st "''1Z''" w st' "groups st"] by (simp_all add: m2_def)
  from r(1) have "word_after (rest st)" by (auto simp: reads_def word_after_def)
  with w(6) have 1: "st \<in> set (wordb st)" by (simp add: in_wordb)
  have 2: "m2 \<in> set (lit ''1Z'' st)" using r(1) by (simp add: in_lit m2_def groups_def)
  have 3: "st' \<in> set (rep 8 20 (chr is_upper_or_digit) m2)"
    using w(1,2,3,5) r(2) by (simp add: in_rep_chr) (intro exI[of _ w], simp add: m2_def groups_def)
  from w(1) have ne: "w \<noteq> []" by auto
  then have "last w \<in> set w" by simp
  with w(3) have "is_word (last w)" by (auto simp: list_all_iff intro: upper_or_digit_word)
  moreover from r(2) ne have "before st' = Some (last w)" by (simp add: reads_def)
  ultimately have "word_before (before st')" by (simp add: word_before_def)
  with w(7) have 4: "st' \<in> set (wordb st')" by (simp add: in_wordb)
  have "st' \<in> set (seq wordb (seq (lit ''1Z'') (seq (rep 8 20 (chr is_upper_or_digit)) wordb)) st)"
    unfolding in_seq using 1 2 3 4 by blast
  then show "st' \<in> set (RE_UPS_STRICT st)"
    by (simp add: RE_UPS_STRICT_def seq_def)
qed

section \<open>Shipment identifiers\<close>

lemma findall_reads_such:
  assumes "reads_such Q m" "w \<in> set (findall m s)"
  shows "Q w"
proof -
  from assms(2) obtain g b' s' where "(w, g, b', s') \<in> set (matches_from m None s)"
    by (auto simp: findall_def)
  then obtain b0 s0 where e: "(b', s', g) \<in> set (m (b0, s0, []))" "w = consumed s0 s'"
    by (auto dest: matches_from_elem)
  from reads_suchD[OF assms(1) e(1)] obtain v where v: "reads (b0, s0, []) v (b', s', g)" "Q v"
    by blast
  from reads_consumed[OF v(1)] e(2) have "w = v" by (simp add: rest_def)
  with v(2) show ?thesis by simp
qed

lemma strict_reads: "reads_such (\<lambda>w. \<exists>r. w = CHR ''1'' # r) RE_UPS_STRICT"
  unfolding reads_such_def strict_iff by auto

lemma loose_reads: "reads_such (\<lambda>w. \<exists>c r. w = c # r \<and> c \<in> set ''1Iil'') RE_UPS_LOOSE"
  unfolding reads_such_def
proof (intro allI impI)
  fix st st'
  let ?R = "seqs [chr (\<lambda>c. c \<in> set ''Zz''), rep 8 20 (chr is_upper_or_digit), wordb]"
  assume "st' \<in> set (RE_UPS_LOOSE st)"
  then have "st' \<in> set (seq wordb (seq (chr (\<lambda>c. c \<in> set ''1Iil'')) ?R) st)"
    by (simp add: RE_UPS_LOOSE_def)
  then obtain m1 m2 where 1: "m1 \<in> set (wordb st)" and
    2: "m2 \<in> set (chr (\<lambda>c. c \<in> set ''1Iil'') m1)" and 3: "st' \<in> set (?R m2)"
    unfolding in_seq by blast
  from 1 have m1: "m1 = st" by (simp add: in_wordb)
  from 2 m1 obtain c cs where c: "rest st = c # cs" "c \<in> set ''1Iil''" "m2 = (Some c, cs, groups st)"
    unfolding in_chr by blast
  have "reads_only (\<lambda>c. True) ?R"
    by (intro reads_only_seqs) (auto intro: reads_only_intros reads_only_any)
  from reads_onlyD[OF this 3] obtain v where v: "reads m2 v st'" by blast
  with c have "reads st (c # v) st'" by (simp add: reads_Cons)
  with c(2) show "\<exists>w. reads st w st' \<and> (\<exists>c r. w = c # r \<and> c \<in> set ''1Iil'')" by blast
qed

lemma generic_reads: "reads_only is_upper_or_digit RE_GENERIC"
  unfolding RE_GENERIC_def
  by (intro reads_only_seqs) (auto intro: reads_only_intros reads_only_chr)

lemma generic_findall: "c \<in> set (findall RE_GENERIC s) \<Longrightarrow> list_all is_upper_or_digit c"
  using findall_reads_such[OF reads_only_such[OF generic_reads]] by blast

lemma upper_char_one: "upper_char CHR ''1'' = ''1''"
  by code_simp

lemma clean_id_loose:
  assumes "c \<in> set ''1Iil''"
  shows "clean_id (c # r) = CHR ''1'' # upper (filter is_ascii_alnum r)"
proof -
  from assms have a: "is_ascii_alnum c" by auto
  show ?thesis using assms a by (auto simp: clean_id_def upper_def upper_char_one)
qed

lemma upper_char_id: "is_upper_or_digit c \<Longrightarrow> upper_char c = [c]"
proof (cases c)
  case (Char b0 b1 b2 b3 b4 b5 b6 b7)
  assume "is_upper_or_digit c"
  then show ?thesis
    unfolding Char
    by (cases b0; cases b1; cases b2; cases b3; cases b4; cases b5; cases b6; cases b7) simp_all
qed

lemma upper_id: "list_all is_upper_or_digit s \<Longrightarrow> upper s = s"
  unfolding upper_def by (induction s) (simp_all add: upper_char_id)

lemma clean_id_generic:
  assumes "list_all is_upper_or_digit c"
  shows "clean_id c = c \<or> (\<exists>r. clean_id c = CHR ''1'' # r)"
proof (cases c)
  case Nil
  then show ?thesis by (simp add: clean_id_def upper_def)
next
  case (Cons x xs)
  from assms have f: "filter is_ascii_alnum c = c"
    by (auto simp: list_all_iff intro: upper_or_digit_alnum filter_True)
  show ?thesis
  proof (cases "x \<in> set ''Iil''")
    case True
    then have "x \<in> set ''1Iil''" by auto
    from clean_id_loose[OF this] show ?thesis unfolding Cons by blast
  next
    case False
    with f Cons have "clean_id c = upper c" by (simp add: clean_id_def)
    with assms show ?thesis by (simp add: upper_id)
  qed
qed

lemma invoice_id_implausible: "\<not> is_plausible ''00001618HS''"
  by code_simp

lemma generic_never_invoice_id:
  assumes "c \<in> set (filter is_plausible (findall RE_GENERIC s))"
  shows "clean_id c \<noteq> ''00001618HS''"
proof
  assume e: "clean_id c = ''00001618HS''"
  from assms have p: "is_plausible c" "list_all is_upper_or_digit c"
    by (auto dest: generic_findall)
  from clean_id_generic[OF p(2)] e have "c = ''00001618HS''" by auto
  with p(1) invoice_id_implausible show False by simp
qed

lemma loose_never_invoice_id:
  assumes "s \<in> set (findall RE_UPS_LOOSE t)"
  shows "clean_id s \<noteq> ''00001618HS''"
proof -
  from findall_reads_such[OF loose_reads assms] obtain c r where
    "s = c # r" "c \<in> set ''1Iil''" by blast
  then show ?thesis by (simp only: clean_id_loose) simp
qed

lemma strict_never_invoice_id:
  assumes "s \<in> set (findall RE_UPS_STRICT t)"
  shows "clean_id s \<noteq> ''00001618HS''"
proof -
  from findall_reads_such[OF strict_reads assms] obtain r where "s = CHR ''1'' # r" by blast
  moreover have "CHR ''1'' \<in> set ''1Iil''" by simp
  ultimately show ?thesis by (simp only: clean_id_loose) simp
qed

lemma loose_lines_never_invoice_id: "loose_lines ls \<noteq> Some ''00001618HS''"
proof (induction ls)
  case Nil
  show ?case by simp
next
  case (Cons line ls)
  show ?case
  proof (cases "findall RE_UPS_LOOSE (fix_ocr line)")
    case Nil
    with Cons show ?thesis by simp
  next
    case (Cons s ss)
    then have "s \<in> set (findall RE_UPS_LOOSE (fix_ocr line))" by simp
    from loose_never_invoice_id[OF this] Cons show ?thesis by simp
  qed
qed

lemma keyword_lines_never_invoice_id: "keyword_lines ls \<noteq> Some ''00001618HS''"
proof (induction ls)
  case Nil
  show ?case by simp
next
  case (Cons line ls)
  show ?case
  proof (cases "filter is_plausible (findall RE_GENERIC (fix_ocr line))")
    case Nil
    with Cons show ?thesis by simp
  next
    case (Cons c cs)
    then have "c \<in> set (filter is_plausible (findall RE_GENERIC (fix_ocr line)))" by simp
    from generic_never_invoice_id[OF this] Cons Cons.IH show ?thesis
      using \<open>keyword_lines ls \<noteq> Some ''00001618HS''\<close> by simp
  qed
qed

lemma extract_never_invoice_id: "IdentifierExtractor_extract t \<noteq> Some ''00001618HS''"
proof (cases "findall RE_UPS_STRICT t")
  case (Cons s ss)
  then have "s \<in> set (findall RE_UPS_STRICT t)" by simp
  from strict_never_invoice_id[OF this] Cons show ?thesis
    by (simp add: IdentifierExtractor_extract_def)
next
  case Nil
  note strict = this
  show ?thesis
  proof (cases "loose_lines (split_nl t)")
    case (Some r)
    with strict loose_lines_never_invoice_id[of "split_nl t"] show ?thesis
      by (simp add: IdentifierExtractor_extract_def)
  next
    case None
    note loose = this
    show ?thesis
    proof (cases "keyword_lines (split_nl t)")
      case (Some r)
      with strict loose keyword_lines_never_invoice_id[of "split_nl t"] show ?thesis
        by (simp add: IdentifierExtractor_extract_def)
    next
      case None
      show ?thesis
      proof (cases "filter is_plausible (findall RE_GENERIC (fix_ocr t))")
        case Nil
        with strict loose None show ?thesis by (simp add: IdentifierExtractor_extract_def)
      next
        case (Cons c cs)
        then have "c \<in> set (filter is_plausible (findall RE_GENERIC (fix_ocr t)))" by simp
        from generic_never_invoice_id[OF this] strict loose None Cons show ?thesis
          by (simp add: IdentifierExtractor_extract_def)
      qed
    qed
  qed
qed

lemma matches_from_search:
  "search_from m b s = Some r \<Longrightarrow> \<exists>rs. matches_from m b s = r # rs"
proof (induction s arbitrary: b)
  case Nil
  then have "match_at m b [] = Some r" by simp
  then show ?case by (subst matches_from.simps) (cases r, simp)
next
  case (Cons c cs)
  show ?case
  proof (cases "match_at m b (c # cs)")
    case None
    with Cons.prems have "search_from m (Some c) cs = Some r" by simp
    from Cons.IH[OF this] obtain rs where "matches_from m (Some c) cs = r # rs" by blast
    with None show ?thesis by (subst matches_from.simps) simp
  next
    case (Some r')
    with Cons.prems have "r' = r" by simp
    with Some show ?thesis by (subst matches_from.simps) (cases r, simp)
  qed
qed

lemma match_at_None: "match_at m b s = None \<longleftrightarrow> m (b, s, []) = []"
  by (auto simp: match_at_def split: list.splits)

lemma word_after_append: "u \<noteq> [] \<Longrightarrow> word_after (u @ z) = word_after u"
  by (cases u) (simp_all add: word_after_def)

lemma strict_local:
  assumes "x \<noteq> []" "\<not> is_word (last x)" "match_at RE_UPS_STRICT b x = None"
  shows "match_at RE_UPS_STRICT b (x @ z) = None"
proof (rule ccontr)
  assume "match_at RE_UPS_STRICT b (x @ z) \<noteq> None"
  then obtain y where "y \<in> set (RE_UPS_STRICT (b, x @ z, []))"
    unfolding match_at_None by (cases "RE_UPS_STRICT (b, x @ z, [])") auto
  then obtain w where w: "8 \<le> length w" "length w \<le> 20" "list_all is_upper_or_digit w"
    "reads (b, x @ z, []) (''1Z'' @ w) y" "groups y = []"
    "\<not> word_before b" "\<not> word_after (rest y)"
    unfolding strict_iff by (auto simp: groups_def before_def)
  from w(4) have e: "x @ z = (''1Z'' @ w) @ rest y" by (simp add: reads_def rest_def)
  have ww: "\<forall>c\<in>set (''1Z'' @ w). is_word c"
    using w(3) by (auto simp: list_all_iff intro: upper_or_digit_word)
  from e obtain u where "x = (''1Z'' @ w) @ u \<and> u @ z = rest y \<or> x @ u = ''1Z'' @ w \<and> z = u @ rest y"
    unfolding append_eq_append_conv2 by blast
  then show False
  proof
    assume a: "x = (''1Z'' @ w) @ u \<and> u @ z = rest y"
    have "u \<noteq> []"
    proof
      assume "u = []"
      with a have "x = ''1Z'' @ w" by simp
      then have "last x \<in> set (''1Z'' @ w)" using assms(1) last_in_set by metis
      with ww assms(2) show False by blast
    qed
    with a w(7) have nw: "\<not> word_after u" by (metis word_after_append)
    define y' where "y' = (Some (last w), u, [] :: string list)"
    from w(1) have ne: "w \<noteq> []" by auto
    have "reads (b, x, []) (''1Z'' @ w) y'"
      using a ne by (simp add: reads_def rest_def before_def y'_def)
    then have "y' \<in> set (RE_UPS_STRICT (b, x, []))"
      unfolding strict_iff using w(1,2,3,6) nw
      by (intro exI[of _ w]) (simp add: y'_def groups_def rest_def before_def)
    with assms(3) show False by (simp add: match_at_None)
  next
    assume a: "x @ u = ''1Z'' @ w \<and> z = u @ rest y"
    have "last x \<in> set x" using assms(1) by simp
    then have "last x \<in> set (x @ u)" by simp
    with a have "last x \<in> set (''1Z'' @ w)" by simp
    with ww assms(2) show False by blast
  qed
qed

lemma strict_search_skip:
  assumes "search_from RE_UPS_STRICT b pre = None" "pre \<noteq> []" "\<not> is_word (last pre)"
  shows "search_from RE_UPS_STRICT b (pre @ z) = search_from RE_UPS_STRICT (Some (last pre)) z"
  using assms
proof (induction pre arbitrary: b)
  case Nil
  then show ?case by simp
next
  case (Cons c cs)
  from Cons.prems(1) have m: "match_at RE_UPS_STRICT b (c # cs) = None"
    and s: "search_from RE_UPS_STRICT (Some c) cs = None"
    by (simp_all split: option.splits)
  from strict_local[OF _ Cons.prems(3) m] have l: "match_at RE_UPS_STRICT b ((c # cs) @ z) = None"
    by simp
  show ?case
  proof (cases "cs = []")
    case True
    with l show ?thesis by simp
  next
    case False
    with Cons.prems(3) have "\<not> is_word (last cs)" by simp
    from Cons.IH[OF s False this] l False show ?thesis by simp
  qed
qed

lemma token_chars: "list_all is_upper_or_digit ''12345E0205271688''"
  by code_simp

lemma strict_match_token:
  assumes "\<not> word_before b" "\<not> word_after post"
  shows "\<exists>g b'. match_at RE_UPS_STRICT b (''1Z12345E0205271688'' @ post)
                 = Some (''1Z12345E0205271688'', g, b', post)"
proof -
  let ?w = "''12345E0205271688''"
  let ?s = "''1Z12345E0205271688'' @ post"
  let ?st = "(b, ?s, [] :: string list)"
  have "reads ?st (''1Z'' @ ?w) (Some CHR ''8'', post, [])"
    by (simp add: reads_def rest_def before_def)
  then have "(Some CHR ''8'', post, []) \<in> set (RE_UPS_STRICT ?st)"
    unfolding strict_iff using assms token_chars
    by (intro exI[of _ ?w]) (simp add: groups_def rest_def before_def)
  then obtain y ys where l: "RE_UPS_STRICT ?st = y # ys"
    by (cases "RE_UPS_STRICT ?st") auto
  then have "y \<in> set (RE_UPS_STRICT ?st)" by simp
  then obtain w where w: "list_all is_upper_or_digit w"
    "reads ?st (''1Z'' @ w) y" "\<not> word_after (rest y)"
    unfolding strict_iff by blast
  from w(2) have e: "?w @ post = w @ rest y" by (simp add: reads_def rest_def)
  have tw: "\<forall>c\<in>set ?w. is_word c"
    using token_chars by (auto simp only: list_all_iff intro: upper_or_digit_word)
  from e obtain u where "?w = w @ u \<and> u @ post = rest y \<or> ?w @ u = w \<and> post = u @ rest y"
    unfolding append_eq_append_conv2 by blast
  then have "rest y = post"
  proof
    assume a: "?w = w @ u \<and> u @ post = rest y"
    have "u = []"
    proof (rule ccontr)
      assume ne: "u \<noteq> []"
      then have "hd u \<in> set u" by simp
      then have "hd u \<in> set (w @ u)" by simp
      with a tw have "is_word (hd u)" by metis
      with ne have "word_after u" by (cases u) (simp_all add: word_after_def)
      with ne a w(3) show False by (metis word_after_append)
    qed
    with a show ?thesis by simp
  next
    assume a: "?w @ u = w \<and> post = u @ rest y"
    have "u = []"
    proof (rule ccontr)
      assume ne: "u \<noteq> []"
      then have "hd u \<in> set (x @ u)" for x :: string by simp
      from this[of ?w] a w(1) have "is_word (hd u)"
        unfolding list_all_iff using upper_or_digit_word by metis
      with ne have "word_after u" by (cases u) (simp_all add: word_after_def)
      with ne a assms(2) show False by (metis word_after_append)
    qed
    with a show ?thesis by simp
  qed
  moreover obtain b' s' g where y: "y = (b', s', g)" by (cases y) auto
  ultimately have "s' = post" by (simp add: rest_def)
  with l y have "match_at RE_UPS_STRICT b ?s = Some (consumed ?s post, g, b', post)"
    by (simp add: match_at_def)
  moreover have "consumed ?s post = ''1Z12345E0205271688''"
    by (simp add: consumed_def)
  ultimately show ?thesis by simp
qed

lemma strict_first_token:
  assumes "pre = [] \<or> \<not> is_word (last pre)" "post = [] \<or> \<not> is_word (hd post)"
    and "\<not> found RE_UPS_STRICT pre"
  shows "\<exists>rs. findall RE_UPS_STRICT (pre @ ''1Z12345E0205271688'' @ post)
              = ''1Z12345E0205271688'' # rs"
proof -
  let ?tok = "''1Z12345E0205271688''"
  define b where "b = (if pre = [] then None else Some (last pre))"
  have nb: "\<not> word_before b" using assms(1) by (auto simp: b_def word_before_def)
  have na: "\<not> word_after post" using assms(2) by (cases post) (auto simp: word_after_def)
  from strict_match_token[OF nb na] obtain g b' where
    m: "match_at RE_UPS_STRICT b (?tok @ post) = Some (?tok, g, b', post)" by blast
  then have s: "search_from RE_UPS_STRICT b (?tok @ post) = Some (?tok, g, b', post)"
    by simp
  have "search_from RE_UPS_STRICT None (pre @ ?tok @ post) = Some (?tok, g, b', post)"
  proof (cases "pre = []")
    case True
    with s show ?thesis by (simp add: b_def)
  next
    case False
    with assms(1) have "\<not> is_word (last pre)" by simp
    moreover from assms(3) have "search_from RE_UPS_STRICT None pre = None"
      by (cases "search_from RE_UPS_STRICT None pre") (simp_all add: found_def search_def)
    ultimately have "search_from RE_UPS_STRICT None (pre @ ?tok @ post)
        = search_from RE_UPS_STRICT (Some (last pre)) (?tok @ post)"
      using False by (intro strict_search_skip)
    with s False show ?thesis by (simp add: b_def)
  qed
  from matches_from_search[OF this] show ?thesis
    by (auto simp: findall_def)
qed

lemma clean_id_token: "clean_id ''1Z12345E0205271688'' = ''1Z12345E0205271688''"
  by code_simp

lemma extract_strict_token:
  assumes "pre = [] \<or> \<not> is_word (last pre)" "post = [] \<or> \<not> is_word (hd post)"
    and "\<not> found RE_UPS_STRICT pre"
  shows "IdentifierExtractor_extract (pre @ ''1Z12345E0205271688'' @ post)
         = Some ''1Z12345E0205271688''"
proof -
  from strict_first_token[OF assms] obtain rs where
    "findall RE_UPS_STRICT (pre @ ''1Z12345E0205271688'' @ post) = ''1Z12345E0205271688'' # rs"
    by blast
  then show ?thesis
    by (simp only: IdentifierExtractor_extract_def Let_def list.case clean_id_token)
qed

lemma embedded_token:
  "IdentifierExtractor_extract ''A1Z12345E0205271688'' = Some ''A1Z12345E0205271688''
   \<and> IdentifierExtractor_extract ''1Z12345E0205271688X'' = Some ''1Z12345E0205271688X''"
  by code_simp

text \<open>
  C3. \<open>IdentifierExtractor.extract\<close> returns \<open>00001618HS\<close> for no block text: the
  plausibility filter rejects it, and no match of the strict or of the loose pattern is
  cleaned to it. For a block text that contains the token \<open>1Z12345E0205271688\<close>, that
  is the string with no word character next to it on either side, and in which the text
  before the token has no match of the strict pattern, the first match of the strict
  pattern is the token and \<open>extract\<close> returns it.
\<close>

theorem identifier_invoice_id_and_strict_tier:
  "(\<forall>t. IdentifierExtractor_extract t \<noteq> Some ''00001618HS'')
   \<and> \<not> is_plausible ''00001618HS''
   \<and> (\<forall>t s. s \<in> set (findall RE_UPS_STRICT t) \<or> s \<in> set (findall RE_UPS_LOOSE t) \<longrightarrow>
         clean_id s \<noteq> ''00001618HS'')
   \<and> (\<forall>pre post. (pre = [] \<or> \<not> is_word (last pre)) \<and> (post = [] \<or> \<not> is_word (hd post)) \<and>
         \<not> found RE_UPS_STRICT pre \<longrightarrow>
         (\<exists>rs. findall RE_UPS_STRICT (pre @ ''1Z12345E0205271688'' @ post)
               = ''1Z12345E0205271688'' # rs) \<and>
         IdentifierExtractor_extract (pre @ ''1Z12345E0205271688'' @ post)
         = Some ''1Z12345E0205271688'')"
  using extract_never_invoice_id invoice_id_implausible strict_never_invoice_id
    loose_never_invoice_id strict_first_token extract_strict_token
  by blast

theorem identifier_invoice_id_and_strict_tier_witness:
  "\<not> found RE_UPS_STRICT ''Rechnung 00001618HS\<newline>Sendung ''
   \<and> IdentifierExtractor_extract ''Rechnung 00001618HS\<newline>Sendung 1Z12345E0205271688 WW''
     = Some ''1Z12345E0205271688''
   \<and> ''1Z12345E02'' \<in> set (findall RE_UPS_LOOSE ''1Z12345E02 WW'')
   \<and> clean_id ''1Z12345E02'' \<noteq> ''00001618HS''"
proof -
  let ?pre = "''Rechnung 00001618HS\<newline>Sendung ''"
  let ?post = "'' WW''"
  have f: "\<not> found RE_UPS_STRICT ?pre" by code_simp
  have a: "\<not> is_word (last ?pre)" by code_simp
  have b: "\<not> is_word (hd ?post)" by code_simp
  from a b f have "(?pre = [] \<or> \<not> is_word (last ?pre)) \<and> (?post = [] \<or> \<not> is_word (hd ?post)) \<and>
         \<not> found RE_UPS_STRICT ?pre" by blast
  with identifier_invoice_id_and_strict_tier
  have "IdentifierExtractor_extract (?pre @ ''1Z12345E0205271688'' @ ?post)
        = Some ''1Z12345E0205271688''"
    by blast
  then have e: "IdentifierExtractor_extract ''Rechnung 00001618HS\<newline>Sendung 1Z12345E0205271688 WW''
     = Some ''1Z12345E0205271688''" by simp
  have l: "''1Z12345E02'' \<in> set (findall RE_UPS_LOOSE ''1Z12345E02 WW'')" by code_simp
  then have "''1Z12345E02'' \<in> set (findall RE_UPS_STRICT ''1Z12345E02 WW'')
             \<or> ''1Z12345E02'' \<in> set (findall RE_UPS_LOOSE ''1Z12345E02 WW'')" by blast
  with identifier_invoice_id_and_strict_tier
  have "clean_id ''1Z12345E02'' \<noteq> ''00001618HS''" by blast
  with f e l show ?thesis by blast
qed

end
